theory Spec2Isabelle
  imports Main "HOL-Library.Word" "HOL-Library.Log_Nat"
begin

section \<open>HC-SR04 ultrasonic sensor driver (hc-sr04.c)\<close>

text \<open>
  The driver talks to the hardware through the Pico SDK only: it writes the trigger pin,
  sleeps, reads the echo pin and reads the microsecond timer. The SDK is not part of the
  repository, so its calls are modelled as operations on a simulated board: a clock, a
  log of the calls made so far, and an environment that fixes what the echo line shows at
  each instant and how long each call takes.
\<close>

subsection \<open>The simulated board\<close>

type_synonym pin = nat

definition TRIG_PIN :: pin where
  "TRIG_PIN = 17"

definition ECHO_PIN :: pin where
  "ECHO_PIN = 16"

text \<open>Every SDK call the program makes, with its arguments.\<close>

datatype call =
    Stdio_init_all
  | Sleep_ms nat
  | Sleep_us nat
  | Gpio_init pin
  | Gpio_set_dir pin bool
  | Gpio_put pin bool
  | Gpio_get pin
  | Time_us_32
  | Get_absolute_time
  | Printf string

text \<open>
  The environment: \<open>input e p t\<close> is the level of input pin \<open>p\<close> at time \<open>t\<close> (in
  microseconds since boot), and \<open>lag e n\<close> is the number of microseconds that the
  \<open>n\<close>-th SDK call of the run takes beyond what it was asked to wait. Both are inputs of
  a simulation: the echo-line trace and the behaviour of the clock.
\<close>

record env =
  input :: "pin \<Rightarrow> nat \<Rightarrow> bool"
  lag :: "nat \<Rightarrow> nat"

record pico =
  now :: nat
  log :: "call list"

text \<open>
  Modelled from the spec: the hardware boundary (line initialisation, direction, level
  set/get, sleeping, printing and the microsecond monotonic clock) is the Pico SDK, which
  is not under src/. A call is recorded in the log and advances the clock by the time it
  blocks plus its lag.
\<close>

definition sdk :: "env \<Rightarrow> call \<Rightarrow> nat \<Rightarrow> pico \<Rightarrow> pico" where
  "sdk e c w s = \<lparr>now = now s + w + lag e (length (log s)), log = log s @ [c]\<rparr>"

definition stdio_init_all :: "env \<Rightarrow> pico \<Rightarrow> pico" where
  "stdio_init_all e s = sdk e Stdio_init_all 0 s"

definition sleep_ms :: "env \<Rightarrow> nat \<Rightarrow> pico \<Rightarrow> pico" where
  "sleep_ms e n s = sdk e (Sleep_ms n) (1000 * n) s"

definition sleep_us :: "env \<Rightarrow> nat \<Rightarrow> pico \<Rightarrow> pico" where
  "sleep_us e n s = sdk e (Sleep_us n) n s"

definition gpio_init :: "env \<Rightarrow> pin \<Rightarrow> pico \<Rightarrow> pico" where
  "gpio_init e p s = sdk e (Gpio_init p) 0 s"

definition gpio_set_dir :: "env \<Rightarrow> pin \<Rightarrow> bool \<Rightarrow> pico \<Rightarrow> pico" where
  "gpio_set_dir e p out s = sdk e (Gpio_set_dir p out) 0 s"

definition gpio_put :: "env \<Rightarrow> pin \<Rightarrow> bool \<Rightarrow> pico \<Rightarrow> pico" where
  "gpio_put e p v s = sdk e (Gpio_put p v) 0 s"

definition gpio_get :: "env \<Rightarrow> pin \<Rightarrow> pico \<Rightarrow> bool \<times> pico" where
  "gpio_get e p s = (input e p (now s), sdk e (Gpio_get p) 0 s)"

text \<open>\<open>time_us_32\<close> is the low 32 bits of the timer, \<open>absolute_time_t\<close> all 64 of them.\<close>

definition time_us_32 :: "env \<Rightarrow> pico \<Rightarrow> 32 word \<times> pico" where
  "time_us_32 e s = (word_of_nat (now s), sdk e Time_us_32 0 s)"

definition get_absolute_time :: "env \<Rightarrow> pico \<Rightarrow> 64 word \<times> pico" where
  "get_absolute_time e s = (word_of_nat (now s), sdk e Get_absolute_time 0 s)"

text \<open>The difference of two timestamps as a signed 64-bit number of microseconds.\<close>

definition absolute_time_diff_us :: "64 word \<Rightarrow> 64 word \<Rightarrow> int" where
  "absolute_time_diff_us from to = sint (to - from)"

definition printf :: "env \<Rightarrow> string \<Rightarrow> pico \<Rightarrow> pico" where
  "printf e str s = sdk e (Printf str) 0 s"

subsection \<open>Floating point\<close>

text \<open>
  C's \<open>double\<close> and \<open>float\<close> are taken to be IEEE 754 binary64 and binary32: every
  conversion and operation rounds the exact result to the nearest representable number,
  ties to even. The values are kept as rationals; \<open>round_to p\<close> rounds to \<open>p\<close>
  significant bits (53 for a double, 24 for a float). The exponent is not bounded: every
  value the driver computes is a 64-bit integer divided by 58, far from overflow and
  underflow of either format.
\<close>

definition rne :: "rat \<Rightarrow> int" where
  "rne x =
     (let f = \<lfloor>x\<rfloor>; r = x - of_int f
      in if r < 1 / 2 then f
         else if 1 / 2 < r then f + 1
         else if even f then f else f + 1)"

text \<open>\<open>ilog2 x\<close> is the binary exponent of a positive \<open>x\<close>: \<open>2 ^ ilog2 x \<le> x < 2 ^ (ilog2 x + 1)\<close>.\<close>

definition ilog2 :: "rat \<Rightarrow> int" where
  "ilog2 x =
     (if 1 \<le> x then int (floorlog 2 (nat \<lfloor>x\<rfloor>)) - 1
      else - int (floorlog 2 (nat (\<lceil>1 / x\<rceil> - 1))))"

definition pow2 :: "int \<Rightarrow> rat" where
  "pow2 k = (if 0 \<le> k then 2 ^ nat k else 1 / 2 ^ nat (- k))"

definition round_to :: "nat \<Rightarrow> rat \<Rightarrow> rat" where
  "round_to p x =
     (if x = 0 then 0
      else let k = int p - 1 - ilog2 \<bar>x\<bar>
           in of_int (rne (x * pow2 k)) * pow2 (- k))"

definition to_double :: "rat \<Rightarrow> rat" where
  "to_double x = round_to 53 x"

definition to_float :: "rat \<Rightarrow> rat" where
  "to_float x = round_to 24 x"

subsection \<open>The driver\<close>

definition write_trig_pin :: "env \<Rightarrow> bool \<Rightarrow> pico \<Rightarrow> pico" where
  "write_trig_pin e state s = gpio_put e TRIG_PIN state s"

definition timeout :: "32 word" where
  "timeout = 38000"

text \<open>
  The four return statements of \<open>get_reading_sensor\<close>: line 46 (no echo start), line 57
  (echo did not end), line 72 (unrealistic reading) and line 75 (the distance). The C
  function returns a float, \<open>-1.0\<close> at the first three.
\<close>

datatype reading = Timeout_start | Timeout_end | OutOfRange | Distance rat

fun returned :: "reading \<Rightarrow> rat" where
  "returned Timeout_start = - 1"
| "returned Timeout_end = - 1"
| "returned OutOfRange = - 1"
| "returned (Distance x) = x"

text \<open>
  The two polling loops (lines 44 to 48 and 55 to 59) differ only in the level they wait
  on: the loop runs while the echo pin reads \<open>l\<close>, which is low in the first loop and
  high in the second. The result is \<open>True\<close> when the loop left through the timeout
  return. A loop that never ends has no result.
\<close>

partial_function (option) poll_echo :: "env \<Rightarrow> bool \<Rightarrow> 32 word \<Rightarrow> pico \<Rightarrow> (bool \<times> pico) option" where
  "poll_echo e l start_time s =
     (case gpio_get e ECHO_PIN s of (v, s1) \<Rightarrow>
        if v = l then
          (case time_us_32 e s1 of (t, s2) \<Rightarrow>
             if t - start_time > timeout then Some (True, s2)
             else poll_echo e l start_time s2)
        else Some (False, s1))"

declare poll_echo.simps [code]

text \<open>Lines 36 to 40: the trigger pulse.\<close>

definition trigger_pulse :: "env \<Rightarrow> pico \<Rightarrow> pico" where
  "trigger_pulse e s =
     write_trig_pin e False
       (sleep_us e 10 (write_trig_pin e True (sleep_us e 2 (write_trig_pin e False s))))"

text \<open>
  Lines 36 to 65: the pulse is sent and the echo is timed. The result is an early return
  (\<open>Inl\<close>) or the duration of the echo pulse in microseconds (\<open>Inr\<close>).
\<close>

definition echo_pulse :: "env \<Rightarrow> pico \<Rightarrow> ((reading + int) \<times> pico) option" where
  "echo_pulse e s =
     (case time_us_32 e (trigger_pulse e s) of (start_time, s1) \<Rightarrow>
      case poll_echo e False start_time s1 of
        None \<Rightarrow> None
      | Some (True, s2) \<Rightarrow> Some (Inl Timeout_start, s2)
      | Some (False, s2) \<Rightarrow>
          (case get_absolute_time e s2 of (start, s3) \<Rightarrow>
           case time_us_32 e s3 of (start_time', s4) \<Rightarrow>
           case poll_echo e True start_time' s4 of
             None \<Rightarrow> None
           | Some (True, s5) \<Rightarrow> Some (Inl Timeout_end, s5)
           | Some (False, s5) \<Rightarrow>
               (case get_absolute_time e s5 of (end, s6) \<Rightarrow>
                  Some (Inr (absolute_time_diff_us start end), s6))))"

text \<open>
  Line 68: the 64-bit duration is converted to double, divided by the double 58.0, and
  the quotient is stored in a float.
\<close>

definition distance_cm :: "int \<Rightarrow> rat" where
  "distance_cm duration = to_float (to_double (to_double (of_int duration) / to_double 58))"

text \<open>Lines 71 to 75: readings below 1 cm or above 400 cm are rejected.\<close>

definition checked :: "rat \<Rightarrow> reading" where
  "checked distance = (if distance < 1 \<or> distance > 400 then OutOfRange else Distance distance)"

definition get_reading_sensor :: "env \<Rightarrow> pico \<Rightarrow> (reading \<times> pico) option" where
  "get_reading_sensor e s =
     (case echo_pulse e s of
        None \<Rightarrow> None
      | Some (Inl r, s') \<Rightarrow> Some (r, s')
      | Some (Inr duration, s') \<Rightarrow> Some (checked (distance_cm duration), s'))"

subsection \<open>The main loop\<close>

text \<open>
  Modelled from the spec: \<open>printf\<close> with \<open>%.2f\<close> is the C library's, not under src/;
  it prints ``the measurement formatted to two decimal places'': the sign, the integer
  part in decimal, a point and two digits, of the value rounded to the nearest hundredth.
\<close>

definition digit :: "nat \<Rightarrow> char" where
  "digit n = char_of (48 + n)"

fun decimal :: "nat \<Rightarrow> string" where
  "decimal n = (if n < 10 then [digit n] else decimal (n div 10) @ [digit (n mod 10)])"

definition fmt_2f :: "rat \<Rightarrow> string" where
  "fmt_2f x =
     (let n = nat (rne (\<bar>x\<bar> * 100))
      in (if x < 0 then ''-'' else []) @ decimal (n div 100) @ ''.'' @
         [digit (n mod 100 div 10), digit (n mod 10)])"

definition banner :: string where
  "banner = ''Ultrasonic Sensor HC-SR04\<newline>''"

definition distance_line :: "rat \<Rightarrow> string" where
  "distance_line distance = ''Distance: '' @ fmt_2f distance @ '' cm\<newline>''"

text \<open>Lines 89 to 98: initialisation and the banner.\<close>

definition main_init :: "env \<Rightarrow> pico \<Rightarrow> pico" where
  "main_init e s =
     printf e banner
       (gpio_set_dir e ECHO_PIN False (gpio_init e ECHO_PIN
         (gpio_set_dir e TRIG_PIN True (gpio_init e TRIG_PIN
           (sleep_ms e 200 (stdio_init_all e s))))))"

text \<open>Lines 101 to 103: one cycle of the loop.\<close>

definition main_cycle :: "env \<Rightarrow> pico \<Rightarrow> pico option" where
  "main_cycle e s =
     (case get_reading_sensor e s of
        None \<Rightarrow> None
      | Some (distance, s1) \<Rightarrow>
          Some (sleep_ms e 1000 (printf e (distance_line (returned distance)) s1)))"

text \<open>
  Line 100: \<open>while (true)\<close>. The loop has no exit, so \<open>main\<close> has a result (its \<open>int\<close>
  and the final board) only if the loop ends.
\<close>

partial_function (option) main_loop :: "env \<Rightarrow> pico \<Rightarrow> (int \<times> pico) option" where
  "main_loop e s = (case main_cycle e s of None \<Rightarrow> None | Some s' \<Rightarrow> main_loop e s')"

definition main :: "env \<Rightarrow> pico \<Rightarrow> (int \<times> pico) option" where
  "main e s = main_loop e (main_init e s)"

text \<open>The board after the first \<open>n\<close> cycles of the loop.\<close>

fun cycles :: "env \<Rightarrow> nat \<Rightarrow> pico \<Rightarrow> pico option" where
  "cycles e 0 s = Some s"
| "cycles e (Suc n) s = (case cycles e n s of None \<Rightarrow> None | Some s' \<Rightarrow> main_cycle e s')"

subsection \<open>Observing a run\<close>

text \<open>The levels written to the trigger pin, in order, and the strings printed.\<close>

fun trig_writes :: "call list \<Rightarrow> bool list" where
  "trig_writes [] = []"
| "trig_writes (Gpio_put p v # cs) = (if p = TRIG_PIN then v # trig_writes cs else trig_writes cs)"
| "trig_writes (c # cs) = trig_writes cs"

fun printed :: "call list \<Rightarrow> string list" where
  "printed [] = []"
| "printed (Printf str # cs) = str # printed cs"
| "printed (c # cs) = printed cs"

text \<open>The calls made since the log had \<open>n\<close> entries.\<close>

definition since :: "nat \<Rightarrow> pico \<Rightarrow> call list" where
  "since n s = drop n (log s)"

text \<open>
  One pass through a polling loop that goes on: the echo pin is read, then the timer.
  \<open>echo_at e s\<close> is the level that the pass starting on board \<open>s\<close> reads,
  \<open>elapsed e start_time s\<close> is the time its timeout test computes, and
  \<open>after_polls e n s\<close> is the board after \<open>n\<close> such passes.
\<close>

definition echo_at :: "env \<Rightarrow> pico \<Rightarrow> bool" where
  "echo_at e s = fst (gpio_get e ECHO_PIN s)"

definition elapsed :: "env \<Rightarrow> 32 word \<Rightarrow> pico \<Rightarrow> 32 word" where
  "elapsed e start_time s = fst (time_us_32 e (snd (gpio_get e ECHO_PIN s))) - start_time"

definition poll_step :: "env \<Rightarrow> pico \<Rightarrow> pico" where
  "poll_step e s = snd (time_us_32 e (snd (gpio_get e ECHO_PIN s)))"

fun after_polls :: "env \<Rightarrow> nat \<Rightarrow> pico \<Rightarrow> pico" where
  "after_polls e 0 s = s"
| "after_polls e (Suc n) s = after_polls e n (poll_step e s)"

text \<open>
  Line 43: the board and the start time on entry to the first loop. Lines 51 and 54: the
  same for the second loop, from the board on which the first loop ended.
\<close>

definition first_wait :: "env \<Rightarrow> pico \<Rightarrow> 32 word \<times> pico" where
  "first_wait e s = time_us_32 e (trigger_pulse e s)"

definition second_wait :: "env \<Rightarrow> pico \<Rightarrow> 32 word \<times> pico" where
  "second_wait e s = time_us_32 e (snd (get_absolute_time e s))"

text \<open>
  A run of a polling loop from board \<open>s\<close>: \<open>K\<close> passes go on (the pin reads \<open>l\<close> and
  the timeout test fails), and pass \<open>K\<close> leaves the loop, through the timeout return
  (\<open>b\<close> true) or because the pin no longer reads \<open>l\<close>; \<open>s'\<close> is the board then.
\<close>

definition poll_run :: "env \<Rightarrow> bool \<Rightarrow> 32 word \<Rightarrow> pico \<Rightarrow> nat \<Rightarrow> bool \<Rightarrow> pico \<Rightarrow> bool" where
  "poll_run e l start_time s K b s' \<longleftrightarrow>
     (\<forall>i<K. echo_at e (after_polls e i s) = l \<and>
            \<not> timeout < elapsed e start_time (after_polls e i s)) \<and>
     (if b then echo_at e (after_polls e K s) = l \<and>
                timeout < elapsed e start_time (after_polls e K s) \<and>
                s' = after_polls e (Suc K) s
      else echo_at e (after_polls e K s) \<noteq> l \<and>
           s' = snd (gpio_get e ECHO_PIN (after_polls e K s)))"

text \<open>The calls that a polling loop makes in such a run.\<close>

definition poll_calls :: "nat \<Rightarrow> bool \<Rightarrow> call list" where
  "poll_calls K b =
     concat (replicate K [Gpio_get ECHO_PIN, Time_us_32]) @
     (if b then [Gpio_get ECHO_PIN, Time_us_32] else [Gpio_get ECHO_PIN])"

text \<open>
  Two boards show the same clock when their timers agree and they have made the same
  number of SDK calls, so that the same lags lie ahead of them.
\<close>

definition same_clock :: "pico \<Rightarrow> pico \<Rightarrow> bool" where
  "same_clock s1 s2 \<longleftrightarrow> now s1 = now s2 \<and> length (log s1) = length (log s2)"

text \<open>
  A steady clock: no SDK call takes \<open>2 ^ 30\<close> microseconds or more, and the clock never
  stops for good (after every call there is a later call that takes time). And the time
  that a 32-bit timer has counted since the start time \<open>st\<close>.
\<close>

definition steady_clock :: "env \<Rightarrow> bool" where
  "steady_clock e \<longleftrightarrow> (\<forall>n. lag e n < 2 ^ 30) \<and> (\<forall>n. \<exists>m\<ge>n. 0 < lag e m)"

definition since_start :: "32 word \<Rightarrow> pico \<Rightarrow> nat" where
  "since_start st s = unat (word_of_nat (now s) - st)"

subsection \<open>A simulated sensor\<close>

text \<open>
  A board that has just booted, and an environment in which the echo line is high from
  time \<open>rise\<close> up to time \<open>fall\<close> and every SDK call takes \<open>tick\<close> microseconds.
\<close>

definition boot :: pico where
  "boot = \<lparr>now = 0, log = []\<rparr>"

definition sim :: "nat \<Rightarrow> nat \<Rightarrow> nat \<Rightarrow> env" where
  "sim rise fall tick = \<lparr>input = (\<lambda>p t. p = ECHO_PIN \<and> rise \<le> t \<and> t < fall), lag = (\<lambda>n. tick)\<rparr>"


section \<open>Properties\<close>

subsection \<open>The polling loops, unrolled\<close>

lemma poll_echo_unfold:
  "poll_echo e l st s =
     (if echo_at e s = l then
        (if timeout < elapsed e st s then Some (True, poll_step e s)
         else poll_echo e l st (poll_step e s))
      else Some (False, snd (gpio_get e ECHO_PIN s)))"
  by (subst poll_echo.simps) (simp add: echo_at_def elapsed_def poll_step_def split: prod.splits)

lemma poll_echo_edge:
  assumes "\<forall>i<K. echo_at e (after_polls e i s) = l \<and> \<not> timeout < elapsed e st (after_polls e i s)"
      and "echo_at e (after_polls e K s) \<noteq> l"
  shows "poll_echo e l st s = Some (False, snd (gpio_get e ECHO_PIN (after_polls e K s)))"
  using assms
proof (induction K arbitrary: s)
  case 0
  then show ?case by (subst poll_echo_unfold) simp
next
  case (Suc K)
  from Suc.prems(1) have now: "echo_at e s = l" "\<not> timeout < elapsed e st s"
    by (metis zero_less_Suc after_polls.simps(1))+
  have "\<forall>i<K. echo_at e (after_polls e i (poll_step e s)) = l
            \<and> \<not> timeout < elapsed e st (after_polls e i (poll_step e s))"
    using Suc.prems(1) by (metis Suc_less_eq after_polls.simps(2))
  moreover have "echo_at e (after_polls e K (poll_step e s)) \<noteq> l"
    using Suc.prems(2) by simp
  ultimately have "poll_echo e l st (poll_step e s) =
      Some (False, snd (gpio_get e ECHO_PIN (after_polls e K (poll_step e s))))"
    by (rule Suc.IH)
  with now show ?case by (subst poll_echo_unfold) simp
qed

lemma poll_echo_expire:
  assumes "\<forall>i\<le>K. echo_at e (after_polls e i s) = l"
      and "timeout < elapsed e st (after_polls e K s)"
  shows "\<exists>J\<le>K. poll_echo e l st s = Some (True, after_polls e (Suc J) s)"
  using assms
proof (induction K arbitrary: s)
  case 0
  then have "poll_echo e l st s = Some (True, after_polls e (Suc 0) s)"
    by (subst poll_echo_unfold) simp
  then show ?case by blast
next
  case (Suc K)
  from Suc.prems(1) have now: "echo_at e s = l"
    by (metis le0 after_polls.simps(1))
  show ?case
  proof (cases "timeout < elapsed e st s")
    case True
    with now have "poll_echo e l st s = Some (True, after_polls e (Suc 0) s)"
      by (subst poll_echo_unfold) simp
    then show ?thesis by blast
  next
    case False
    have "\<forall>i\<le>K. echo_at e (after_polls e i (poll_step e s)) = l"
      using Suc.prems(1) by (metis Suc_le_mono after_polls.simps(2))
    moreover have "timeout < elapsed e st (after_polls e K (poll_step e s))"
      using Suc.prems(2) by simp
    ultimately obtain J where J: "J \<le> K"
        "poll_echo e l st (poll_step e s) = Some (True, after_polls e (Suc J) (poll_step e s))"
      using Suc.IH by blast
    from J(2) now False have "poll_echo e l st s = Some (True, after_polls e (Suc (Suc J)) s)"
      by (subst poll_echo_unfold) simp
    with J(1) show ?thesis by (metis Suc_le_mono)
  qed
qed

lemma poll_run_Suc:
  assumes "echo_at e s = l" "\<not> timeout < elapsed e st s" "poll_run e l st (poll_step e s) K b s'"
  shows "poll_run e l st s (Suc K) b s'"
proof -
  have "echo_at e (after_polls e i s) = l \<and> \<not> timeout < elapsed e st (after_polls e i s)"
    if "i < Suc K" for i
  proof (cases i)
    case 0
    with assms(1,2) show ?thesis by simp
  next
    case (Suc j)
    with that have "j < K" by simp
    with assms(3) Suc show ?thesis by (simp add: poll_run_def)
  qed
  with assms(3) show ?thesis by (simp add: poll_run_def)
qed

text \<open>A loop that ends has made a run.\<close>

lemma poll_echo_SomeD:
  assumes "poll_echo e l st s = Some r"
  shows "\<exists>K. poll_run e l st s K (fst r) (snd r)"
proof (rule poll_echo.raw_induct
    [where P = "\<lambda>e l st s r. \<exists>K. poll_run e l st s K (fst r) (snd r)", OF _ assms])
  fix poll e l st s r
  assume IH: "\<And>e l st s r. poll e l st s = Some r \<Longrightarrow> \<exists>K. poll_run e l st s K (fst r) (snd r)"
    and body: "(case gpio_get e ECHO_PIN s of (v, s1) \<Rightarrow>
        if v = l then
          (case time_us_32 e s1 of (t, s2) \<Rightarrow>
             if timeout < t - st then Some (True, s2)
             else poll e l st s2)
        else Some (False, s1)) = Some r"
  show "\<exists>K. poll_run e l st s K (fst r) (snd r)"
  proof (cases "echo_at e s = l")
    case False
    with body have "r = (False, snd (gpio_get e ECHO_PIN s))"
      by (auto simp: echo_at_def split: prod.splits if_splits)
    with False have "poll_run e l st s 0 (fst r) (snd r)" by (simp add: poll_run_def)
    then show ?thesis ..
  next
    case True
    show ?thesis
    proof (cases "timeout < elapsed e st s")
      case t: True
      with True body have "r = (True, poll_step e s)"
        by (auto simp: echo_at_def elapsed_def poll_step_def split: prod.splits if_splits)
      with True t have "poll_run e l st s 0 (fst r) (snd r)" by (simp add: poll_run_def)
      then show ?thesis ..
    next
      case f: False
      with True body have "poll e l st (poll_step e s) = Some r"
        by (auto simp: echo_at_def elapsed_def poll_step_def split: prod.splits if_splits)
      from IH[OF this] obtain K where "poll_run e l st (poll_step e s) K (fst r) (snd r)" ..
      with True f have "poll_run e l st s (Suc K) (fst r) (snd r)" by (rule poll_run_Suc)
      then show ?thesis ..
    qed
  qed
qed

subsection \<open>The calls of a measurement\<close>

lemma log_sdk: "log (sdk e c w s) = log s @ [c]"
  by (simp add: sdk_def)

lemma log_poll_step: "log (poll_step e s) = log s @ [Gpio_get ECHO_PIN, Time_us_32]"
  by (simp add: poll_step_def gpio_get_def time_us_32_def log_sdk)

lemma log_after_polls:
  "log (after_polls e n s) = log s @ concat (replicate n [Gpio_get ECHO_PIN, Time_us_32])"
  by (induction n arbitrary: s) (simp_all add: log_poll_step)

lemma trig_writes_append: "trig_writes (xs @ ys) = trig_writes xs @ trig_writes ys"
  by (induction xs rule: trig_writes.induct) simp_all

lemma printed_append: "printed (xs @ ys) = printed xs @ printed ys"
  by (induction xs rule: printed.induct) simp_all

lemma trig_writes_polls: "trig_writes (concat (replicate n [Gpio_get ECHO_PIN, Time_us_32])) = []"
  by (induction n) simp_all

lemma printed_polls: "printed (concat (replicate n [Gpio_get ECHO_PIN, Time_us_32])) = []"
  by (induction n) simp_all

lemma stamp_polls: "Get_absolute_time \<notin> set (concat (replicate n [Gpio_get ECHO_PIN, Time_us_32]))"
  by (induction n) simp_all

lemma after_polls_Suc: "after_polls e (Suc n) s = poll_step e (after_polls e n s)"
  by (induction n arbitrary: s) simp_all

lemma log_poll_run:
  "poll_run e l st s K b s' \<Longrightarrow> log s' = log s @ poll_calls K b"
  by (cases b)
     (simp_all add: poll_run_def poll_calls_def after_polls_Suc log_after_polls log_poll_step
        gpio_get_def log_sdk del: after_polls.simps(2))

lemma poll_calls_quiet:
  "trig_writes (poll_calls K b) = []" "printed (poll_calls K b) = []"
  "Get_absolute_time \<notin> set (poll_calls K b)"
  by (simp_all add: poll_calls_def trig_writes_append printed_append trig_writes_polls
      printed_polls stamp_polls)

lemma log_poll_echo:
  assumes "poll_echo e l st s = Some (b, s')"
  shows "\<exists>K. log s' = log s @ poll_calls K b"
  using poll_echo_SomeD[OF assms] log_poll_run by fastforce

lemma log_trigger_pulse:
  "log (trigger_pulse e s) =
     log s @ [Gpio_put TRIG_PIN False, Sleep_us 2, Gpio_put TRIG_PIN True, Sleep_us 10,
              Gpio_put TRIG_PIN False]"
  by (simp add: trigger_pulse_def write_trig_pin_def gpio_put_def sleep_us_def log_sdk)

lemma echo_pulse_early:
  "echo_pulse e s = Some (Inl r, s') \<Longrightarrow> r = Timeout_start \<or> r = Timeout_end"
  by (auto simp: echo_pulse_def split: prod.splits option.splits bool.splits)

lemma echo_pulse_writes:
  assumes "echo_pulse e s = Some (x, s')"
  shows "trig_writes (log s') = trig_writes (log s) @ [False, True, False]"
proof -
  obtain st s1 where fw: "time_us_32 e (trigger_pulse e s) = (st, s1)" by fastforce
  then have l1: "log s1 = log (trigger_pulse e s) @ [Time_us_32]"
    by (auto simp: time_us_32_def log_sdk)
  have t1: "trig_writes (log s1) = trig_writes (log s) @ [False, True, False]"
    by (simp add: l1 log_trigger_pulse trig_writes_append TRIG_PIN_def)
  from assms fw obtain b s2 where p1: "poll_echo e False st s1 = Some (b, s2)"
    by (auto simp: echo_pulse_def split: option.splits)
  from log_poll_echo[OF p1] have t2: "trig_writes (log s2) = trig_writes (log s1)"
    by (auto simp: trig_writes_append poll_calls_quiet)
  show ?thesis
  proof (cases b)
    case True
    with assms fw p1 have "s' = s2" by (simp add: echo_pulse_def)
    with t1 t2 show ?thesis by simp
  next
    case False
    obtain start s3 where ga: "get_absolute_time e s2 = (start, s3)" by fastforce
    obtain st' s4 where tu: "time_us_32 e s3 = (st', s4)" by fastforce
    have t4: "trig_writes (log s4) = trig_writes (log s2)"
      using ga tu by (auto simp: get_absolute_time_def time_us_32_def log_sdk trig_writes_append)
    from assms fw p1 False ga tu obtain b' s5 where p2: "poll_echo e True st' s4 = Some (b', s5)"
      by (auto simp: echo_pulse_def split: option.splits)
    from log_poll_echo[OF p2] have t5: "trig_writes (log s5) = trig_writes (log s4)"
      by (auto simp: trig_writes_append poll_calls_quiet)
    show ?thesis
    proof (cases b')
      case True
      with assms fw p1 False ga tu p2 have "s' = s5" by (simp add: echo_pulse_def)
      with t1 t2 t4 t5 show ?thesis by simp
    next
      case f: False
      with assms fw p1 False ga tu p2 have "s' = snd (get_absolute_time e s5)"
        by (auto simp add: echo_pulse_def split: prod.splits)
      then have "trig_writes (log s') = trig_writes (log s5)"
        by (simp add: get_absolute_time_def log_sdk trig_writes_append)
      with t1 t2 t4 t5 show ?thesis by simp
    qed
  qed
qed

lemma get_reading_sensor_state:
  "get_reading_sensor e s = Some (r, s') \<Longrightarrow> \<exists>x. echo_pulse e s = Some (x, s')"
  by (auto simp: get_reading_sensor_def split: option.splits prod.splits sum.splits)

subsection \<open>Rounding and the conversion to centimeters\<close>

lemma pow2_powi: "pow2 k = 2 powi k"
  by (simp add: pow2_def power_int_def inverse_eq_divide power_one_over)

lemma pow2_pos: "0 < pow2 k"
  by (simp add: pow2_powi)

lemma pow2_add: "pow2 (a + b) = pow2 a * pow2 b"
  by (simp add: pow2_powi power_int_add)

lemma pow2_mono: "a \<le> b \<Longrightarrow> pow2 a \<le> pow2 b"
  by (simp add: pow2_powi power_int_increasing)

lemma pow2_strict: "pow2 a < pow2 b \<Longrightarrow> a < b"
  using pow2_mono[of b a] by (cases "a < b") auto

lemma pow2_nat: "0 \<le> k \<Longrightarrow> pow2 k = of_int (2 ^ nat k)"
  by (simp add: pow2_def)

lemma pow2_cancel: "pow2 k * pow2 (- k) = 1"
  using pow2_add[of k "- k"] by (simp add: pow2_def)

lemma rne_err: "\<bar>of_int (rne x) - x\<bar> \<le> 1 / 2"
proof -
  have "of_int \<lfloor>x\<rfloor> \<le> x" "x < of_int \<lfloor>x\<rfloor> + 1" by linarith+
  then show ?thesis by (auto simp: rne_def Let_def)
qed

lemma rne_ge: "of_int n \<le> x \<Longrightarrow> n \<le> rne x"
proof -
  assume "of_int n \<le> x"
  then have "n \<le> \<lfloor>x\<rfloor>" by (simp add: le_floor_iff)
  then show ?thesis by (auto simp: rne_def Let_def)
qed

lemma rne_le: "x \<le> of_int n \<Longrightarrow> rne x \<le> n"
proof (cases "x = of_int n")
  case True
  then show ?thesis by (simp add: rne_def)
next
  case False
  assume "x \<le> of_int n"
  with False have "x < of_int n" by simp
  then have "\<lfloor>x\<rfloor> < n" by (simp add: floor_less_iff)
  then show ?thesis by (auto simp: rne_def Let_def)
qed

lemma ilog2_bounds:
  assumes "0 < x"
  shows "pow2 (ilog2 x) \<le> x \<and> x < pow2 (ilog2 x + 1)"
proof (cases "1 \<le> x")
  case True
  define n where "n = nat \<lfloor>x\<rfloor>"
  define m where "m = floorlog 2 n"
  from True have n: "0 < n" by (simp add: n_def)
  from floorlog_bounds[OF n, of 2] have b: "2 ^ (m - 1) \<le> n" "n < 2 ^ m"
    by (simp_all add: m_def)
  from n b(2) have m: "0 < m" by (cases m) auto
  have e: "ilog2 x = int m - 1" using True by (simp add: ilog2_def n_def m_def)
  have "0 \<le> \<lfloor>x\<rfloor>" using True by simp
  then have nn: "(of_nat n :: rat) = of_int \<lfloor>x\<rfloor>" by (simp add: n_def)
  have nx: "of_nat n \<le> x" "x < of_nat n + 1"
    unfolding nn by linarith+
  have "pow2 (int m - 1) = 2 ^ (m - 1)" using m by (simp add: pow2_def nat_diff_distrib)
  also have "\<dots> \<le> of_nat n" using b(1) of_nat_mono[of "2 ^ (m - 1)" n, where ?'a = rat] by simp
  finally have lo: "pow2 (ilog2 x) \<le> x" using nx(1) e by simp
  have "of_nat n + 1 \<le> (2::rat) ^ m"
    using b(2) of_nat_mono[of "Suc n" "2 ^ m", where ?'a = rat] by simp
  with nx(2) have "x < pow2 (ilog2 x + 1)" by (simp add: e pow2_def)
  with lo show ?thesis ..
next
  case False
  define y where "y = 1 / x"
  define M where "M = nat (\<lceil>y\<rceil> - 1)"
  define m where "m = floorlog 2 M"
  from False assms have y1: "1 < y" by (simp add: y_def)
  then have "2 \<le> \<lceil>y\<rceil>" by (simp add: le_ceiling_iff)
  then have M: "0 < M" by (simp add: M_def)
  from floorlog_bounds[OF M, of 2] have b: "2 ^ (m - 1) \<le> M" "M < 2 ^ m"
    by (simp_all add: m_def)
  from M b(2) have m: "0 < m" by (cases m) auto
  have e: "ilog2 x = - int m" using False by (simp add: ilog2_def M_def m_def y_def)
  have MM: "(of_nat M :: rat) = of_int \<lceil>y\<rceil> - 1"
    using \<open>2 \<le> \<lceil>y\<rceil>\<close> by (simp add: M_def)
  have My: "of_nat M < y" "y \<le> of_nat M + 1"
    unfolding MM by linarith+
  have "of_nat M + 1 \<le> (2::rat) ^ m"
    using b(2) of_nat_mono[of "Suc M" "2 ^ m", where ?'a = rat] by simp
  with My(2) have "y \<le> 2 ^ m" by simp
  then have "1 / 2 ^ m \<le> x" using assms by (simp add: y_def field_simps)
  then have lo: "pow2 (ilog2 x) \<le> x" using m by (simp add: e pow2_def)
  have "(2::rat) ^ (m - 1) \<le> of_nat M"
    using b(1) of_nat_mono[of "2 ^ (m - 1)" M, where ?'a = rat] by simp
  from this My(1) have "2 ^ (m - 1) < y" by (rule le_less_trans)
  then have "x < 1 / 2 ^ (m - 1)" using assms by (simp add: y_def field_simps)
  moreover have "pow2 (1 - int m) = 1 / 2 ^ (m - 1)"
    using m by (cases "m = 1") (simp_all add: pow2_def nat_diff_distrib)
  ultimately have "x < pow2 (ilog2 x + 1)" by (simp add: e)
  with lo show ?thesis ..
qed


lemma round_to_err: "\<bar>round_to p x - x\<bar> \<le> \<bar>x\<bar> / 2 ^ p"
proof (cases "x = 0")
  case True
  then show ?thesis by (simp add: round_to_def)
next
  case False
  define e where "e = ilog2 \<bar>x\<bar>"
  define k where "k = int p - 1 - e"
  from False have "0 < \<bar>x\<bar>" by simp
  from ilog2_bounds[OF this] have lo: "pow2 e \<le> \<bar>x\<bar>" by (simp add: e_def)
  have r: "round_to p x = of_int (rne (x * pow2 k)) * pow2 (- k)"
    using False by (simp add: round_to_def k_def e_def)
  have "x = (x * pow2 k) * pow2 (- k)"
    using pow2_cancel[of k] by (simp add: mult.assoc)
  then have "round_to p x - x = (of_int (rne (x * pow2 k)) - x * pow2 k) * pow2 (- k)"
    unfolding r by (metis left_diff_distrib)
  then have "\<bar>round_to p x - x\<bar> = \<bar>of_int (rne (x * pow2 k)) - x * pow2 k\<bar> * pow2 (- k)"
    using pow2_pos[of "- k"] by (simp add: abs_mult)
  also have "\<dots> \<le> (1 / 2) * pow2 (- k)"
    using rne_err[of "x * pow2 k"] pow2_pos[of "- k"] by (intro mult_right_mono) simp_all
  also have "(1 / 2) * pow2 (- k) = pow2 (- 1) * pow2 (- k)" by (simp add: pow2_def)
  also have "\<dots> = pow2 (e - int p)" by (simp add: k_def flip: pow2_add)
  also have "\<dots> = pow2 e * pow2 (- int p)" by (simp flip: pow2_add)
  also have "pow2 (- int p) = 1 / 2 ^ p" by (simp add: pow2_def)
  also have "pow2 e * (1 / 2 ^ p) \<le> \<bar>x\<bar> * (1 / 2 ^ p)"
    using lo by (intro mult_right_mono) simp_all
  finally show ?thesis by simp
qed

lemma round_to_int_bounds:
  assumes "0 < x" "x < 2 ^ p"
  shows "of_int a \<le> x \<Longrightarrow> of_int a \<le> round_to p x"
    and "x \<le> of_int b \<Longrightarrow> round_to p x \<le> of_int b"
proof -
  define e where "e = ilog2 \<bar>x\<bar>"
  define k where "k = int p - 1 - e"
  from ilog2_bounds[of "\<bar>x\<bar>"] assms have "pow2 e < pow2 (int p)"
    by (simp add: e_def pow2_def)
  then have "e < int p" by (rule pow2_strict)
  then have k0: "0 \<le> k" by (simp add: k_def)
  have r: "round_to p x = of_int (rne (x * pow2 k)) * pow2 (- k)"
    using assms by (simp add: round_to_def k_def e_def)
  have pk: "pow2 k = of_int (2 ^ nat k)" using k0 by (rule pow2_nat)
  {
    assume "of_int a \<le> x"
    then have "of_int a * pow2 k \<le> x * pow2 k"
      using pow2_pos[of k] by (intro mult_right_mono) simp_all
    then have "of_int (a * 2 ^ nat k) \<le> x * pow2 k" by (simp add: pk)
    then have "a * 2 ^ nat k \<le> rne (x * pow2 k)" by (rule rne_ge)
    then have "(of_int (a * 2 ^ nat k) :: rat) \<le> of_int (rne (x * pow2 k))" by (simp only: of_int_le_iff)
    then have "of_int a * pow2 k * pow2 (- k) \<le> of_int (rne (x * pow2 k)) * pow2 (- k)"
      using pow2_pos[of "- k"] by (intro mult_right_mono) (simp_all add: pk)
    then show "of_int a \<le> round_to p x"
      using pow2_cancel[of k] by (simp add: r mult.assoc)
  }
  {
    assume "x \<le> of_int b"
    then have "x * pow2 k \<le> of_int b * pow2 k"
      using pow2_pos[of k] by (intro mult_right_mono) simp_all
    then have "x * pow2 k \<le> of_int (b * 2 ^ nat k)" by (simp add: pk)
    then have "rne (x * pow2 k) \<le> b * 2 ^ nat k" by (rule rne_le)
    then have "(of_int (rne (x * pow2 k)) :: rat) \<le> of_int (b * 2 ^ nat k)" by (simp only: of_int_le_iff)
    then have "of_int (rne (x * pow2 k)) * pow2 (- k) \<le> of_int b * pow2 k * pow2 (- k)"
      using pow2_pos[of "- k"] by (intro mult_right_mono) (simp_all add: pk)
    then show "round_to p x \<le> of_int b"
      using pow2_cancel[of k] by (simp add: r mult.assoc)
  }
qed


lemma round_to_int:
  assumes "0 < n" "of_int n < (2::rat) ^ p"
  shows "round_to p (of_int n) = of_int n"
proof (rule antisym)
  from assms have pos: "(0::rat) < of_int n" by simp
  show "round_to p (of_int n) \<le> of_int n"
    by (rule round_to_int_bounds(2)[OF pos assms(2)]) simp
  show "of_int n \<le> round_to p (of_int n)"
    by (rule round_to_int_bounds(1)[OF pos assms(2)]) simp
qed

lemma to_double_58: "to_double 58 = 58"
  using round_to_int[of 58 53] by (simp add: to_double_def)

lemma to_double_nonpos: "x \<le> 0 \<Longrightarrow> to_double x \<le> 0"
  using round_to_err[of 53 x] by (simp add: to_double_def)

lemma to_float_nonpos: "x \<le> 0 \<Longrightarrow> to_float x \<le> 0"
  using round_to_err[of 24 x] by (simp add: to_float_def)

lemma to_double_near:
  assumes "0 \<le> x"
  shows "x - x / 2 ^ 53 \<le> to_double x \<and> to_double x \<le> x + x / 2 ^ 53"
proof -
  from round_to_err[of 53 x] assms have "\<bar>to_double x - x\<bar> \<le> x / 2 ^ 53"
    by (simp add: to_double_def)
  then show ?thesis by (simp only: abs_le_iff) linarith
qed

lemma to_float_near:
  assumes "0 \<le> x"
  shows "x - x / 2 ^ 24 \<le> to_float x \<and> to_float x \<le> x + x / 2 ^ 24"
proof -
  from round_to_err[of 24 x] assms have "\<bar>to_float x - x\<bar> \<le> x / 2 ^ 24"
    by (simp add: to_float_def)
  then show ?thesis by (simp only: abs_le_iff) linarith
qed

lemma distance_cm_near:
  assumes "0 < d" "d < 2 ^ 53"
  shows "\<bar>distance_cm d - of_int d / 58\<bar> \<le> (of_int d / 58) / 2 ^ 23"
proof -
  define x :: rat where "x = of_int d / 58"
  define y where "y = to_double x"
  from assms have "of_int d < (2::rat) ^ 53"
    by (metis of_int_less_iff of_int_numeral of_int_power)
  with assms have dd: "to_double (of_int d) = of_int d"
    unfolding to_double_def by (intro round_to_int) simp_all
  have r: "distance_cm d = to_float y"
    by (simp add: distance_cm_def dd to_double_58 x_def y_def)
  from assms have x0: "0 < x" by (simp add: x_def)
  from to_double_near[of x] x0 have y: "x - x / 2 ^ 53 \<le> y" "y \<le> x + x / 2 ^ 53"
    by (simp_all add: y_def)
  with x0 have "0 \<le> y" by simp
  from to_float_near[OF this]
  have "y - y / 2 ^ 24 \<le> to_float y" "to_float y \<le> y + y / 2 ^ 24" by simp_all
  with y have "to_float y - x \<le> x / 2 ^ 23" "- (to_float y - x) \<le> x / 2 ^ 23"
    using x0 by simp_all
  then have "\<bar>to_float y - x\<bar> \<le> x / 2 ^ 23" by (rule abs_leI)
  then show ?thesis by (simp add: r x_def)
qed

lemma distance_cm_in_range:
  assumes "58 \<le> d" "d \<le> 23200"
  shows "1 \<le> distance_cm d" "distance_cm d \<le> 400"
proof -
  define x :: rat where "x = of_int d / 58"
  define y where "y = to_double x"
  from assms have "of_int d < (2::rat) ^ 53" by simp
  with assms have dd: "to_double (of_int d) = of_int d"
    unfolding to_double_def by (intro round_to_int) simp_all
  have r: "distance_cm d = to_float y"
    by (simp add: distance_cm_def dd to_double_58 x_def y_def)
  from assms have x: "1 \<le> x" "x \<le> 400" by (simp_all add: x_def)
  then have x0: "0 < x" "x < 2 ^ 53" by simp_all
  have y: "1 \<le> y" "y \<le> 400"
    using round_to_int_bounds(1)[OF x0(1,2), of 1] round_to_int_bounds(2)[OF x0(1,2), of 400] x
    by (simp_all add: y_def to_double_def)
  then have y0: "0 < y" "y < 2 ^ 24" by simp_all
  show "1 \<le> distance_cm d" "distance_cm d \<le> 400"
    using round_to_int_bounds(1)[OF y0, of 1] round_to_int_bounds(2)[OF y0, of 400] y
    by (simp_all add: r to_float_def)
qed

lemma distance_cm_exact:
  assumes "58 \<le> d" "d \<le> 23200" "58 dvd d"
  shows "distance_cm d = of_int d / 58"
proof -
  from assms(3) obtain n where d: "d = 58 * n" ..
  with assms have n: "0 < n" "n \<le> 400" by simp_all
  then have "of_int n < (2::rat) ^ 53" "of_int n < (2::rat) ^ 24" by simp_all
  with n have nn: "to_double (of_int n) = of_int n" "to_float (of_int n) = of_int n"
    unfolding to_double_def to_float_def by (simp_all add: round_to_int)
  from assms have "of_int d < (2::rat) ^ 53" by simp
  with assms have dd: "to_double (of_int d) = of_int d"
    unfolding to_double_def by (intro round_to_int) simp_all
  have q: "of_int d / 58 = (of_int n :: rat)" by (simp add: d)
  have "distance_cm d = to_float (to_double (of_int d / 58))"
    by (simp only: distance_cm_def dd to_double_58)
  also have "\<dots> = of_int n" by (simp only: q nn)
  finally show ?thesis by (simp only: q)
qed

lemma distance_cm_small:
  assumes "d \<le> 57"
  shows "distance_cm d < 1"
proof (cases "d \<le> 0")
  case True
  then have "to_double (of_int d) \<le> 0" by (intro to_double_nonpos) simp
  then have "to_double (of_int d) / 58 \<le> 0" by simp
  then have "to_double (to_double (of_int d) / 58) \<le> 0" by (rule to_double_nonpos)
  then have "distance_cm d \<le> 0"
    unfolding distance_cm_def to_double_58 by (rule to_float_nonpos)
  then show ?thesis by simp
next
  case False
  define x :: rat where "x = of_int d / 58"
  define y where "y = to_double x"
  from False assms have "of_int d < (2::rat) ^ 53" by simp
  with False have dd: "to_double (of_int d) = of_int d"
    unfolding to_double_def by (intro round_to_int) simp_all
  have r: "distance_cm d = to_float y"
    by (simp add: distance_cm_def dd to_double_58 x_def y_def)
  from False assms have x: "0 \<le> x" "x \<le> 57 / 58" by (simp_all add: x_def)
  from to_double_near[OF x(1)] have y: "x - x / 2 ^ 53 \<le> y" "y \<le> x + x / 2 ^ 53"
    by (simp_all add: y_def)
  with x have y0: "0 \<le> y" by simp
  from to_float_near[OF y0] have "to_float y \<le> y + y / 2 ^ 24" by simp
  with y x have "to_float y < 1" by simp
  then show ?thesis by (simp add: r)
qed

lemma distance_cm_large:
  assumes "23201 \<le> d"
  shows "400 < distance_cm d"
proof -
  define dd where "dd = to_double (of_int d)"
  define x :: rat where "x = dd / 58"
  define y where "y = to_double x"
  have r: "distance_cm d = to_float y"
    by (simp add: distance_cm_def to_double_58 x_def y_def dd_def)
  from assms have d: "(23201::rat) \<le> of_int d" by simp
  then have "(0::rat) \<le> of_int d" by simp
  from to_double_near[OF this] have "of_int d - of_int d / 2 ^ 53 \<le> dd" by (simp add: dd_def)
  with d have dd: "46401 / 2 \<le> dd" by simp
  then have x: "0 \<le> x" "46401 / 116 \<le> x" by (simp_all add: x_def)
  from to_double_near[OF x(1)] have y: "x - x / 2 ^ 53 \<le> y" by (simp add: y_def)
  with x have y0: "0 \<le> y" "400008 / 1000 \<le> y" by simp_all
  from to_float_near[OF y0(1)] have "y - y / 2 ^ 24 \<le> to_float y" by simp
  with y0 have "400 < to_float y" by simp
  then show ?thesis by (simp add: r)
qed

subsection \<open>The stages of a measurement\<close>

lemmas board_simps = sdk_def gpio_get_def gpio_put_def time_us_32_def get_absolute_time_def
  sleep_us_def write_trig_pin_def trigger_pulse_def first_wait_def second_wait_def
  echo_at_def elapsed_def poll_step_def sim_def boot_def ECHO_PIN_def TRIG_PIN_def timeout_def

lemma echo_pulse_unfold:
  "echo_pulse e s =
     (case first_wait e s of (st, s1) \<Rightarrow>
      case poll_echo e False st s1 of
        None \<Rightarrow> None
      | Some (True, s2) \<Rightarrow> Some (Inl Timeout_start, s2)
      | Some (False, s2) \<Rightarrow>
          (case second_wait e s2 of (st', s4) \<Rightarrow>
           case poll_echo e True st' s4 of
             None \<Rightarrow> None
           | Some (True, s5) \<Rightarrow> Some (Inl Timeout_end, s5)
           | Some (False, s5) \<Rightarrow>
               Some (Inr (absolute_time_diff_us (fst (get_absolute_time e s2))
                            (fst (get_absolute_time e s5))),
                     snd (get_absolute_time e s5))))"
  by (simp add: echo_pulse_def first_wait_def second_wait_def
      split: prod.splits option.splits bool.splits)

lemma echo_pulse_no_rise:
  "first_wait e s = (st, s1) \<Longrightarrow> poll_echo e False st s1 = Some (True, s2) \<Longrightarrow>
   echo_pulse e s = Some (Inl Timeout_start, s2)"
  by (simp add: echo_pulse_unfold)

lemma echo_pulse_no_fall:
  "first_wait e s = (st, s1) \<Longrightarrow> poll_echo e False st s1 = Some (False, s2) \<Longrightarrow>
   second_wait e s2 = (st', s4) \<Longrightarrow> poll_echo e True st' s4 = Some (True, s5) \<Longrightarrow>
   echo_pulse e s = Some (Inl Timeout_end, s5)"
  by (simp add: echo_pulse_unfold)

lemma echo_pulse_timed:
  "first_wait e s = (st, s1) \<Longrightarrow> poll_echo e False st s1 = Some (False, s2) \<Longrightarrow>
   second_wait e s2 = (st', s4) \<Longrightarrow> poll_echo e True st' s4 = Some (False, s5) \<Longrightarrow>
   echo_pulse e s =
     Some (Inr (absolute_time_diff_us (fst (get_absolute_time e s2))
                  (fst (get_absolute_time e s5))),
           snd (get_absolute_time e s5))"
  by (simp add: echo_pulse_unfold)

lemma get_reading_sensor_early:
  "echo_pulse e s = Some (Inl r, s') \<Longrightarrow> get_reading_sensor e s = Some (r, s')"
  by (simp add: get_reading_sensor_def)

lemma log_first_wait:
  "first_wait e s = (st, s1) \<Longrightarrow>
   log s1 = log s @ [Gpio_put TRIG_PIN False, Sleep_us 2, Gpio_put TRIG_PIN True, Sleep_us 10,
                     Gpio_put TRIG_PIN False, Time_us_32]"
  by (auto simp: first_wait_def time_us_32_def log_sdk log_trigger_pulse)

lemma checked_not_timeout: "checked x \<noteq> Timeout_start" "checked x \<noteq> Timeout_end"
  by (simp_all add: checked_def)

subsection \<open>What a cycle of the main loop prints\<close>

lemma set_poll_calls: "set (poll_calls K b) \<subseteq> {Time_us_32, Gpio_get ECHO_PIN, Get_absolute_time}"
  by (induction K) (auto simp: poll_calls_def)

lemma timing_calls_quiet:
  "set xs \<subseteq> {Time_us_32, Gpio_get ECHO_PIN, Get_absolute_time} \<Longrightarrow>
   trig_writes xs = [] \<and> printed xs = []"
  by (induction xs) auto

lemma log_second_wait:
  "second_wait e s = (st, s') \<Longrightarrow> log s' = log s @ [Get_absolute_time, Time_us_32]"
  by (auto simp: second_wait_def time_us_32_def get_absolute_time_def log_sdk)

lemma echo_pulse_calls:
  assumes "echo_pulse e s = Some (x, s')"
  shows "\<exists>xs. log s' = log s @ [Gpio_put TRIG_PIN False, Sleep_us 2, Gpio_put TRIG_PIN True,
                                 Sleep_us 10, Gpio_put TRIG_PIN False] @ xs \<and>
              set xs \<subseteq> {Time_us_32, Gpio_get ECHO_PIN, Get_absolute_time}"
proof -
  let ?T = "[Gpio_put TRIG_PIN False, Sleep_us 2, Gpio_put TRIG_PIN True,
             Sleep_us 10, Gpio_put TRIG_PIN False]"
  let ?A = "{Time_us_32, Gpio_get ECHO_PIN, Get_absolute_time}"
  obtain st s1 where fw: "first_wait e s = (st, s1)" by fastforce
  from log_first_wait[OF fw] have l1: "log s1 = log s @ ?T @ [Time_us_32]" by simp
  from assms fw obtain b s2 where p1: "poll_echo e False st s1 = Some (b, s2)"
    by (auto simp: echo_pulse_unfold split: option.splits)
  from log_poll_echo[OF p1] obtain K where l2: "log s2 = log s1 @ poll_calls K b" ..
  show ?thesis
  proof (cases b)
    case True
    with assms fw p1 have "s' = s2" by (simp add: echo_pulse_unfold)
    with l1 l2 have "log s' = log s @ ?T @ ([Time_us_32] @ poll_calls K b)" by simp
    moreover have "set ([Time_us_32] @ poll_calls K b) \<subseteq> ?A"
      using set_poll_calls[of K b] by auto
    ultimately show ?thesis by blast
  next
    case False
    obtain st' s4 where sw: "second_wait e s2 = (st', s4)" by fastforce
    from log_second_wait[OF sw] have l4: "log s4 = log s2 @ [Get_absolute_time, Time_us_32]" .
    from assms fw p1 False sw obtain b' s5 where p2: "poll_echo e True st' s4 = Some (b', s5)"
      by (auto simp: echo_pulse_unfold split: option.splits)
    from log_poll_echo[OF p2] obtain K' where l5: "log s5 = log s4 @ poll_calls K' b'" ..
    let ?xs = "[Time_us_32] @ poll_calls K b @ [Get_absolute_time, Time_us_32] @ poll_calls K' b'"
    have l5': "log s5 = log s @ ?T @ ?xs" by (simp add: l1 l2 l4 l5)
    have sub: "set ?xs \<subseteq> ?A" using set_poll_calls[of K b] set_poll_calls[of K' b'] by auto
    show ?thesis
    proof (cases b')
      case True
      with assms fw p1 False sw p2 have "s' = s5" by (simp add: echo_pulse_unfold)
      with l5' sub show ?thesis by blast
    next
      case f: False
      with assms fw p1 False sw p2 have "s' = snd (get_absolute_time e s5)"
        by (simp add: echo_pulse_unfold)
      then have "log s' = log s @ ?T @ (?xs @ [Get_absolute_time])"
        by (simp add: get_absolute_time_def log_sdk l5')
      moreover have "set (?xs @ [Get_absolute_time]) \<subseteq> ?A" using sub by auto
      ultimately show ?thesis by blast
    qed
  qed
qed

lemma get_reading_sensor_prints:
  assumes "get_reading_sensor e s = Some (r, s')"
  shows "printed (log s') = printed (log s)"
proof -
  from get_reading_sensor_state[OF assms] obtain x where "echo_pulse e s = Some (x, s')" ..
  from echo_pulse_calls[OF this] obtain xs where
    "log s' = log s @ [Gpio_put TRIG_PIN False, Sleep_us 2, Gpio_put TRIG_PIN True,
                       Sleep_us 10, Gpio_put TRIG_PIN False] @ xs"
    "set xs \<subseteq> {Time_us_32, Gpio_get ECHO_PIN, Get_absolute_time}" by blast
  with timing_calls_quiet[of xs] show ?thesis by (simp add: printed_append)
qed

lemma main_cycle_Some:
  "get_reading_sensor e s = Some (r, s1) \<Longrightarrow>
   main_cycle e s = Some (sleep_ms e 1000 (printf e (distance_line (returned r)) s1))"
  by (simp add: main_cycle_def)

lemma log_cycle_end:
  "log (sleep_ms e 1000 (printf e str s1)) = log s1 @ [Printf str, Sleep_ms 1000]"
  by (simp add: sleep_ms_def printf_def log_sdk)

lemma failure_line: "distance_line (- 1) = ''Distance: -1.00 cm\<newline>''"
  by code_simp

lemma main_loop_never: "main_loop e s = None"
proof (cases "main_loop e s")
  case (Some y)
  have False
    by (rule main_loop.raw_induct[where P = "\<lambda>e s y. False", OF _ Some])
       (auto split: option.splits)
  then show ?thesis ..
qed simp

lemma printed_main_init: "printed (log (main_init e s)) = printed (log s) @ [banner]"
  by (simp add: main_init_def printf_def gpio_set_dir_def gpio_init_def sleep_ms_def
      stdio_init_all_def log_sdk printed_append)

lemma main_cycle_SomeD:
  "main_cycle e s = Some s' \<Longrightarrow>
   \<exists>r s1. get_reading_sensor e s = Some (r, s1) \<and>
          s' = sleep_ms e 1000 (printf e (distance_line (returned r)) s1)"
  by (auto simp: main_cycle_def split: option.splits)

lemma cycles_printed:
  "cycles e n s0 = Some sn \<Longrightarrow>
   \<exists>vs. length vs = n \<and> printed (log sn) = printed (log s0) @ map distance_line vs"
proof (induction n arbitrary: sn)
  case 0
  then show ?case by simp
next
  case (Suc n)
  from Suc.prems obtain sm where sm: "cycles e n s0 = Some sm" "main_cycle e sm = Some sn"
    by (auto split: option.splits)
  from Suc.IH[OF sm(1)] obtain vs where vs: "length vs = n"
    "printed (log sm) = printed (log s0) @ map distance_line vs" by blast
  from main_cycle_SomeD[OF sm(2)] obtain r s1 where r: "get_reading_sensor e sm = Some (r, s1)"
    "sn = sleep_ms e 1000 (printf e (distance_line (returned r)) s1)" by blast
  have "printed (log sn) = printed (log sm) @ [distance_line (returned r)]"
    by (simp add: r(2) log_cycle_end printed_append get_reading_sensor_prints[OF r(1)])
  with vs have "length (vs @ [returned r]) = Suc n"
    "printed (log sn) = printed (log s0) @ map distance_line (vs @ [returned r])" by simp_all
  then show ?case by blast
qed

lemma now_cycle_end: "now s1 + 1000000 \<le> now (sleep_ms e 1000 (printf e str s1))"
  by (simp add: sleep_ms_def printf_def sdk_def)

lemmas main_simps = main_init_def stdio_init_all_def sleep_ms_def gpio_init_def
  gpio_set_dir_def printf_def

subsection \<open>Boards that show the same clock\<close>

lemma same_clock_sym: "same_clock s1 s2 \<Longrightarrow> same_clock s2 s1"
  by (simp add: same_clock_def)

lemma sdk_same:
  "lag e1 = lag e2 \<Longrightarrow> same_clock s1 s2 \<Longrightarrow> same_clock (sdk e1 c w s1) (sdk e2 c' w s2)"
  by (simp add: same_clock_def sdk_def)

lemma gpio_get_same:
  assumes "input e1 ECHO_PIN = input e2 ECHO_PIN" "lag e1 = lag e2" "same_clock s1 s2"
  shows "fst (gpio_get e1 ECHO_PIN s1) = fst (gpio_get e2 ECHO_PIN s2)"
    and "same_clock (snd (gpio_get e1 ECHO_PIN s1)) (snd (gpio_get e2 ECHO_PIN s2))"
  using assms by (simp_all add: gpio_get_def sdk_same) (simp add: same_clock_def)

lemma time_us_32_same:
  assumes "lag e1 = lag e2" "same_clock s1 s2"
  shows "fst (time_us_32 e1 s1) = fst (time_us_32 e2 s2)"
    and "same_clock (snd (time_us_32 e1 s1)) (snd (time_us_32 e2 s2))"
  using assms by (simp_all add: time_us_32_def sdk_same) (simp add: same_clock_def)

lemma get_absolute_time_same:
  assumes "lag e1 = lag e2" "same_clock s1 s2"
  shows "fst (get_absolute_time e1 s1) = fst (get_absolute_time e2 s2)"
    and "same_clock (snd (get_absolute_time e1 s1)) (snd (get_absolute_time e2 s2))"
  using assms by (simp_all add: get_absolute_time_def sdk_same) (simp add: same_clock_def)

lemma trigger_pulse_same:
  "lag e1 = lag e2 \<Longrightarrow> same_clock s1 s2 \<Longrightarrow>
   same_clock (trigger_pulse e1 s1) (trigger_pulse e2 s2)"
  by (simp add: trigger_pulse_def write_trig_pin_def gpio_put_def sleep_us_def sdk_same)

lemma first_wait_same:
  assumes "lag e1 = lag e2" "same_clock s1 s2"
  shows "fst (first_wait e1 s1) = fst (first_wait e2 s2)"
    and "same_clock (snd (first_wait e1 s1)) (snd (first_wait e2 s2))"
  unfolding first_wait_def
  using time_us_32_same[OF assms(1) trigger_pulse_same[OF assms]] by simp_all

lemma second_wait_same:
  assumes "lag e1 = lag e2" "same_clock s1 s2"
  shows "fst (second_wait e1 s1) = fst (second_wait e2 s2)"
    and "same_clock (snd (second_wait e1 s1)) (snd (second_wait e2 s2))"
  unfolding second_wait_def
  using time_us_32_same[OF assms(1) get_absolute_time_same(2)[OF assms]] by simp_all

lemma poll_step_same:
  assumes "input e1 ECHO_PIN = input e2 ECHO_PIN" "lag e1 = lag e2" "same_clock s1 s2"
  shows "same_clock (poll_step e1 s1) (poll_step e2 s2)"
  unfolding poll_step_def
  by (rule time_us_32_same(2)[OF assms(2) gpio_get_same(2)[OF assms]])

lemma after_polls_same:
  assumes "input e1 ECHO_PIN = input e2 ECHO_PIN" "lag e1 = lag e2"
  shows "same_clock s1 s2 \<Longrightarrow> same_clock (after_polls e1 n s1) (after_polls e2 n s2)"
  by (induction n arbitrary: s1 s2) (simp_all add: poll_step_same[OF assms])

lemma echo_at_same:
  assumes "input e1 ECHO_PIN = input e2 ECHO_PIN" "lag e1 = lag e2" "same_clock s1 s2"
  shows "echo_at e1 s1 = echo_at e2 s2"
  unfolding echo_at_def by (rule gpio_get_same(1)[OF assms])

lemma elapsed_same:
  assumes "input e1 ECHO_PIN = input e2 ECHO_PIN" "lag e1 = lag e2" "same_clock s1 s2"
  shows "elapsed e1 st s1 = elapsed e2 st s2"
  unfolding elapsed_def
  using time_us_32_same(1)[OF assms(2) gpio_get_same(2)[OF assms]] by simp

lemma poll_run_Suc_iff:
  "poll_run e l st s (Suc K) b s' \<longleftrightarrow>
   echo_at e s = l \<and> \<not> timeout < elapsed e st s \<and> poll_run e l st (poll_step e s) K b s'"
  by (auto simp: poll_run_def All_less_Suc2)

lemma poll_run_imp_poll_echo:
  "poll_run e l st s K b s' \<Longrightarrow> poll_echo e l st s = Some (b, s')"
proof (induction K arbitrary: s)
  case 0
  show ?case
  proof (cases b)
    case True
    with 0 have "echo_at e s = l" "timeout < elapsed e st s" "s' = poll_step e s"
      by (simp_all add: poll_run_def)
    with True show ?thesis by (subst poll_echo_unfold) simp
  next
    case False
    with 0 have "echo_at e s \<noteq> l" "s' = snd (gpio_get e ECHO_PIN s)"
      by (simp_all add: poll_run_def)
    with False show ?thesis by (subst poll_echo_unfold) simp
  qed
next
  case (Suc K)
  from Suc.prems have "echo_at e s = l" "\<not> timeout < elapsed e st s"
    "poll_run e l st (poll_step e s) K b s'"
    by (simp_all add: poll_run_Suc_iff)
  with Suc.IH show ?case by (subst poll_echo_unfold) simp
qed

lemma poll_run_same:
  assumes "input e1 ECHO_PIN = input e2 ECHO_PIN" "lag e1 = lag e2" "same_clock s1 s2"
      and "poll_run e1 l st s1 K b s1'"
  shows "\<exists>s2'. poll_run e2 l st s2 K b s2' \<and> same_clock s1' s2'"
proof -
  note ap = after_polls_same[OF assms(1,2,3)]
  have ea: "echo_at e1 (after_polls e1 i s1) = echo_at e2 (after_polls e2 i s2)" for i
    by (rule echo_at_same[OF assms(1,2) ap])
  have el: "elapsed e1 st (after_polls e1 i s1) = elapsed e2 st (after_polls e2 i s2)" for i
    by (rule elapsed_same[OF assms(1,2) ap])
  show ?thesis
  proof (cases b)
    case True
    with assms(4) have "poll_run e2 l st s2 K b (after_polls e2 (Suc K) s2)"
      unfolding poll_run_def ea el by simp
    moreover from True assms(4) have "s1' = after_polls e1 (Suc K) s1"
      by (simp add: poll_run_def)
    ultimately show ?thesis using ap[of "Suc K"] by blast
  next
    case False
    with assms(4) have "poll_run e2 l st s2 K b (snd (gpio_get e2 ECHO_PIN (after_polls e2 K s2)))"
      unfolding poll_run_def ea el by simp
    moreover from False assms(4) have "s1' = snd (gpio_get e1 ECHO_PIN (after_polls e1 K s1))"
      by (simp add: poll_run_def)
    ultimately show ?thesis using gpio_get_same(2)[OF assms(1,2) ap[of K]] by blast
  qed
qed

lemma poll_echo_same:
  assumes "input e1 ECHO_PIN = input e2 ECHO_PIN" "lag e1 = lag e2" "same_clock s1 s2"
      and "poll_echo e1 l st s1 = Some (b, s1')"
  shows "\<exists>s2'. poll_echo e2 l st s2 = Some (b, s2') \<and> same_clock s1' s2'"
proof -
  from poll_echo_SomeD[OF assms(4)] obtain K where "poll_run e1 l st s1 K b s1'" by auto
  from poll_run_same[OF assms(1,2,3) this] obtain s2' where
    "poll_run e2 l st s2 K b s2'" "same_clock s1' s2'" by blast
  with poll_run_imp_poll_echo show ?thesis by blast
qed

lemma echo_pulse_same:
  assumes "input e1 ECHO_PIN = input e2 ECHO_PIN" "lag e1 = lag e2" "same_clock s1 s2"
      and "echo_pulse e1 s1 = Some (x, s1')"
  shows "\<exists>s2'. echo_pulse e2 s2 = Some (x, s2')"
proof -
  obtain st t1 where fw1: "first_wait e1 s1 = (st, t1)" by fastforce
  obtain st2 t2 where fw2: "first_wait e2 s2 = (st2, t2)" by fastforce
  from first_wait_same[OF assms(2,3)] fw1 fw2 have st2: "st2 = st" and t: "same_clock t1 t2"
    by simp_all
  from assms(4) fw1 obtain b u1 where p1: "poll_echo e1 False st t1 = Some (b, u1)"
    by (auto simp: echo_pulse_unfold split: option.splits)
  from poll_echo_same[OF assms(1,2) t p1] obtain u2 where
    p2: "poll_echo e2 False st u2' = Some (b, u2)" "same_clock u1 u2" if "u2' = t2" for u2'
    by blast
  show ?thesis
  proof (cases b)
    case True
    with assms(4) fw1 p1 have "x = Inl Timeout_start" by (simp add: echo_pulse_unfold)
    with True fw2 p2(1) st2 show ?thesis by (simp add: echo_pulse_unfold)
  next
    case False
    obtain st' v1 where sw1: "second_wait e1 u1 = (st', v1)" by fastforce
    obtain st2' v2 where sw2: "second_wait e2 u2 = (st2', v2)" by fastforce
    from second_wait_same[OF assms(2) p2(2)] sw1 sw2 have st2': "st2' = st'" and v: "same_clock v1 v2"
      by simp_all
    from assms(4) fw1 p1 False sw1 obtain b' w1 where q1: "poll_echo e1 True st' v1 = Some (b', w1)"
      by (auto simp: echo_pulse_unfold split: option.splits)
    from poll_echo_same[OF assms(1,2) v q1] obtain w2 where
      q2: "poll_echo e2 True st' v2 = Some (b', w2)" "same_clock w1 w2" by blast
    show ?thesis
    proof (cases b')
      case True
      with assms(4) fw1 p1 False sw1 q1 have "x = Inl Timeout_end" by (simp add: echo_pulse_unfold)
      with True False fw2 p2(1) st2 sw2 st2' q2(1) show ?thesis by (simp add: echo_pulse_unfold)
    next
      case f: False
      have "fst (get_absolute_time e1 u1) = fst (get_absolute_time e2 u2)"
        "fst (get_absolute_time e1 w1) = fst (get_absolute_time e2 w2)"
        using get_absolute_time_same(1)[OF assms(2)] p2(2) q2(2) by simp_all
      moreover from assms(4) fw1 p1 False sw1 q1 f
      have "x = Inr (absolute_time_diff_us (fst (get_absolute_time e1 u1))
                       (fst (get_absolute_time e1 w1)))"
        by (simp add: echo_pulse_unfold)
      ultimately show ?thesis
        using f False fw2 p2(1) st2 sw2 st2' q2(1) by (simp add: echo_pulse_unfold)
    qed
  qed
qed

lemma get_reading_sensor_map:
  "map_option fst (get_reading_sensor e s) =
   map_option (\<lambda>x. case x of Inl r \<Rightarrow> r | Inr d \<Rightarrow> checked (distance_cm d))
     (map_option fst (echo_pulse e s))"
  by (auto simp: get_reading_sensor_def split: option.splits prod.splits sum.splits)

subsection \<open>Under a steady clock every measurement returns\<close>

lemma unat_advance:
  fixes st :: "32 word"
  assumes "unat (word_of_nat n - st) + d < 2 ^ 32"
  shows "unat (word_of_nat (n + d) - st) = unat (word_of_nat n - st) + d"
proof -
  from assms have d: "d < 2 ^ 32" by simp
  have eq: "word_of_nat (n + d) - st = (word_of_nat n - st) + (word_of_nat d :: 32 word)" by simp
  have ud: "unat (word_of_nat d :: 32 word) = d" using d by (simp add: unat_of_nat)
  have "unat ((word_of_nat n - st) + (word_of_nat d :: 32 word)) =
      unat (word_of_nat n - st) + unat (word_of_nat d :: 32 word)"
    using assms by (intro unat_add_lem[THEN iffD1]) (simp add: ud)
  then show ?thesis by (simp only: eq ud)
qed

lemma now_gpio_get: "now (snd (gpio_get e p s)) = now s + lag e (length (log s))"
  by (simp add: gpio_get_def sdk_def)

lemma now_poll_step:
  "now (poll_step e s) = now s + lag e (length (log s)) + lag e (Suc (length (log s)))"
  by (simp add: poll_step_def gpio_get_def time_us_32_def sdk_def)

lemma length_log_poll_step: "length (log (poll_step e s)) = Suc (Suc (length (log s)))"
  by (simp add: log_poll_step)

lemma elapsed_now: "elapsed e st s = word_of_nat (now s + lag e (length (log s))) - st"
  by (simp add: elapsed_def time_us_32_def now_gpio_get)

lemma poll_echo_returns:
  assumes "steady_clock e" and "since_start st s \<le> 38000 + 2 ^ 30"
  shows "\<exists>r. poll_echo e l st s = Some r"
  using assms(2)
proof (induction "38000 + 2 ^ 30 - since_start st s" arbitrary: s rule: less_induct)
  case less
  note outer = less.hyps
  from assms(1) have small: "lag e n < 2 ^ 30" for n by (simp add: steady_clock_def)
  from assms(1) obtain m where m: "length (log s) \<le> m" "0 < lag e m"
    unfolding steady_clock_def by blast
  define d where "d = Suc m - length (log s)"
  with m have "\<exists>m. length (log s) \<le> m \<and> m < length (log s) + d \<and> 0 < lag e m" by auto
  moreover define G0 where "G0 = since_start st s"
  then have "since_start st s = G0" by simp
  ultimately show ?case using less.prems
  proof (induction d arbitrary: s rule: less_induct)
    case (less d t)
    define c where "c = length (log t)"
    define a where "a = lag e c"
    define b where "b = lag e (Suc c)"
    define G where "G = since_start st t"
    have ab: "a < 2 ^ 30" "b < 2 ^ 30" using small by (simp_all add: a_def b_def)
    from less.prems(3) have G: "G \<le> 38000 + 2 ^ 30" by (simp add: G_def)
    with ab have "unat (word_of_nat (now t) - st) + a < 2 ^ 32"
      by (simp add: G_def since_start_def)
    from unat_advance[OF this] have el: "unat (elapsed e st t) = G + a"
      by (simp add: elapsed_now G_def since_start_def a_def c_def)
    show ?case
    proof (cases "echo_at e t = l \<and> \<not> timeout < elapsed e st t")
      case False
      then show ?thesis by (subst poll_echo_unfold) auto
    next
      case True
      then have "unat (elapsed e st t) \<le> 38000"
        by (simp add: word_less_nat_alt timeout_def not_less)
      with el have Ga: "G + a \<le> 38000" by simp
      with ab have "unat (word_of_nat (now t) - st) + (a + b) < 2 ^ 32"
        by (simp add: G_def since_start_def)
      from unat_advance[OF this] have g': "since_start st (poll_step e t) = G + a + b"
        by (simp add: since_start_def now_poll_step G_def a_def b_def c_def add.assoc)
      with Ga ab have inv': "since_start st (poll_step e t) \<le> 38000 + 2 ^ 30" by simp
      have "\<exists>r. poll_echo e l st (poll_step e t) = Some r"
      proof (cases "a + b = 0")
        case False
        with g' inv' have "38000 + 2 ^ 30 - since_start st (poll_step e t)
            < 38000 + 2 ^ 30 - since_start st t" unfolding G_def by linarith
        then have "38000 + 2 ^ 30 - since_start st (poll_step e t)
            < 38000 + 2 ^ 30 - since_start st s" using less.prems(2) unfolding G0_def by linarith
        from outer[OF this inv'] show ?thesis .
      next
        case zero: True
        from less.prems(1) obtain m where m: "c \<le> m" "m < c + d" "0 < lag e m"
          by (auto simp: c_def)
        from zero m(3) have "m \<noteq> c" "m \<noteq> Suc c" by (auto simp: a_def b_def)
        with m have m2: "Suc (Suc c) \<le> m" "m < Suc (Suc c) + (d - 2)" "d - 2 < d" by simp_all
        then have "\<exists>m. length (log (poll_step e t)) \<le> m \<and>
            m < length (log (poll_step e t)) + (d - 2) \<and> 0 < lag e m"
          using m(3) by (auto simp: length_log_poll_step c_def)
        moreover have "since_start st (poll_step e t) = G0"
          using g' zero less.prems(2) unfolding G_def by linarith
        ultimately show ?thesis using less.IH[OF m2(3)] inv' by blast
      qed
      with True show ?thesis by (subst poll_echo_unfold) simp
    qed
  qed
qed


lemma time_us_32_since:
  assumes "steady_clock e"
  shows "since_start (fst (time_us_32 e t)) (snd (time_us_32 e t)) \<le> 38000 + 2 ^ 30"
proof -
  define d where "d = lag e (length (log t))"
  from assms have d: "d < 2 ^ 30" by (simp add: steady_clock_def d_def)
  have "word_of_nat (now t + d) - (word_of_nat (now t) :: 32 word) = word_of_nat d" by simp
  moreover have "unat (word_of_nat d :: 32 word) = d" using d by (simp add: unat_of_nat)
  ultimately have "since_start (fst (time_us_32 e t)) (snd (time_us_32 e t)) = d"
    by (simp add: since_start_def time_us_32_def sdk_def d_def)
  with d show ?thesis by simp
qed

lemma get_reading_sensor_returns:
  assumes "steady_clock e"
  shows "\<exists>r s'. get_reading_sensor e s = Some (r, s')"
proof -
  obtain st s1 where fw: "first_wait e s = (st, s1)" by fastforce
  with time_us_32_since[OF assms, of "trigger_pulse e s"]
  have "since_start st s1 \<le> 38000 + 2 ^ 30" by (simp add: first_wait_def)
  from poll_echo_returns[OF assms this] obtain b s2 where
    p1: "poll_echo e False st s1 = Some (b, s2)" by fastforce
  obtain st' s4 where sw: "second_wait e s2 = (st', s4)" by fastforce
  with time_us_32_since[OF assms, of "snd (get_absolute_time e s2)"]
  have "since_start st' s4 \<le> 38000 + 2 ^ 30" by (simp add: second_wait_def)
  from poll_echo_returns[OF assms this] obtain b' s5 where
    p2: "poll_echo e True st' s4 = Some (b', s5)" by fastforce
  from fw p1 sw p2 have "\<exists>x s'. echo_pulse e s = Some (x, s')"
    by (cases b; cases b') (simp_all add: echo_pulse_unfold)
  then show ?thesis
    by (auto simp: get_reading_sensor_def split: sum.splits)
qed

lemma cycles_exist:
  assumes "steady_clock e"
  shows "\<exists>sn. cycles e n s0 = Some sn"
proof (induction n)
  case 0
  show ?case by simp
next
  case (Suc n)
  then obtain sn where sn: "cycles e n s0 = Some sn" ..
  from get_reading_sensor_returns[OF assms, of sn] obtain r s1 where
    "get_reading_sensor e sn = Some (r, s1)" by blast
  with sn show ?case by (simp add: main_cycle_Some)
qed

subsection \<open>Runs in closed form\<close>



lemma echo_at_now: "echo_at e s = input e ECHO_PIN (now s)"
  by (simp add: echo_at_def gpio_get_def)

lemma not_expired:
  fixes n t0 :: nat
  assumes "t0 \<le> n" "n - t0 \<le> 38000"
  shows "\<not> timeout < (word_of_nat n - word_of_nat t0 :: 32 word)"
proof -
  have "(word_of_nat n - word_of_nat t0 :: 32 word) = word_of_nat (n - t0)"
    using assms(1) by simp
  moreover have "unat (word_of_nat (n - t0) :: 32 word) = n - t0"
    using assms(2) by (simp add: unat_of_nat)
  ultimately show ?thesis using assms(2)
    by (simp add: word_less_nat_alt timeout_def)
qed

lemma diff_us:
  assumes "d < 2 ^ 63"
  shows "absolute_time_diff_us (word_of_nat a) (word_of_nat (a + d)) = int d"
proof -
  have "(word_of_nat (a + d) - word_of_nat a :: 64 word) = word_of_nat d" by simp
  moreover have "sint (word_of_nat d :: 64 word) = int d"
    using assms by (simp add: signed_of_nat signed_take_bit_int_eq_self)
  ultimately show ?thesis by (simp add: absolute_time_diff_us_def)
qed


lemma after_polls_const:
  assumes "\<And>n. lag e n = tick"
  shows "now (after_polls e j s) = now s + 2 * tick * j \<and>
         length (log (after_polls e j s)) = length (log s) + 2 * j"
proof (induction j arbitrary: s)
  case 0
  show ?case by simp
next
  case (Suc j)
  have "now (poll_step e s) = now s + 2 * tick" by (simp add: now_poll_step assms)
  moreover have "length (log (poll_step e s)) = length (log s) + 2"
    by (simp add: length_log_poll_step)
  ultimately show ?case using Suc.IH[of "poll_step e s"] by (simp add: algebra_simps)
qed


lemma lag_sim: "lag (sim r f tick) n = tick"
  by (simp add: sim_def)

lemma input_sim: "input (sim r f tick) ECHO_PIN t \<longleftrightarrow> r \<le> t \<and> t < f"
  by (simp add: sim_def)

lemma const_echo_at:
  assumes "\<And>n. lag e n = tick"
  shows "echo_at e (after_polls e i s) = input e ECHO_PIN (now s + 2 * tick * i)"
  by (simp add: echo_at_now after_polls_const[OF assms])

lemma const_unexpired:
  assumes "\<And>n. lag e n = tick" and "t0 \<le> now s" and "now s + 2 * tick * i + tick - t0 \<le> 38000"
  shows "\<not> timeout < elapsed e (word_of_nat t0) (after_polls e i s)"
proof -
  have "elapsed e (word_of_nat t0) (after_polls e i s) =
      word_of_nat (now s + 2 * tick * i + tick) - word_of_nat t0"
    by (simp only: elapsed_now after_polls_const[OF assms(1)] assms(1))
  moreover have "\<not> timeout < (word_of_nat (now s + 2 * tick * i + tick) - word_of_nat t0 :: 32 word)"
    using assms(2,3) by (intro not_expired) simp_all
  ultimately show ?thesis by simp
qed

lemma sim1_run:
  assumes low1: "\<forall>i<K1. \<not> (r \<le> 18 + 2 * i \<and> 18 + 2 * i < f)"
      and rise: "r \<le> 18 + 2 * K1" "18 + 2 * K1 < f"
      and t1: "2 * K1 \<le> 38000"
      and high2: "\<forall>i<K2. r \<le> 21 + 2 * K1 + 2 * i \<and> 21 + 2 * K1 + 2 * i < f"
      and fall: "\<not> (r \<le> 21 + 2 * K1 + 2 * K2 \<and> 21 + 2 * K1 + 2 * K2 < f)"
      and t2: "2 * K2 \<le> 38000"
  shows "\<exists>s'. echo_pulse (sim r f 1) boot = Some (Inr (int (2 * K2 + 3)), s') \<and>
              Get_absolute_time \<in> set (log s')"
proof -
  define e where "e = sim r f 1"
  have lag1: "lag e n = 1" for n unfolding e_def by (rule lag_sim)
  have inp: "input e ECHO_PIN t \<longleftrightarrow> r \<le> t \<and> t < f" for t unfolding e_def by (rule input_sim)
  have ap: "now (after_polls e i s) = now s + 2 * i" for i s
    using after_polls_const[of e 1 i s, OF lag1] by simp
  have ea: "echo_at e (after_polls e i s) \<longleftrightarrow> r \<le> now s + 2 * i \<and> now s + 2 * i < f" for i s
    by (simp add: echo_at_now ap inp)
  have un: "\<not> timeout < elapsed e (word_of_nat t0) (after_polls e i s)"
    if "t0 \<le> now s" "now s + 2 * i + 1 - t0 \<le> 38000" for t0 i s
    using const_unexpired[of e 1 t0 s i, OF lag1] that by simp
  obtain st s1 where fw: "first_wait e boot = (st, s1)" by fastforce
  then have s1: "s1 = snd (first_wait e boot)" and st0: "st = fst (first_wait e boot)"
    by simp_all
  have n0: "now (trigger_pulse e boot) = 17" "length (log (trigger_pulse e boot)) = 5"
    by (simp_all add: trigger_pulse_def write_trig_pin_def gpio_put_def sleep_us_def sdk_def
        lag1 boot_def)
  have n1: "now s1 = 18"
    unfolding s1 first_wait_def by (simp add: time_us_32_def sdk_def lag1 n0)
  have st: "st = word_of_nat 17"
    unfolding st0 first_wait_def time_us_32_def by (simp only: fst_conv n0)
  have a1: "\<forall>i<K1. echo_at e (after_polls e i s1) = False \<and>
      \<not> timeout < elapsed e st (after_polls e i s1)"
  proof (intro allI impI conjI)
    fix i assume i: "i < K1"
    with low1 show "echo_at e (after_polls e i s1) = False"
      by (simp add: ea n1)
    from i t1 show "\<not> timeout < elapsed e st (after_polls e i s1)"
      unfolding st by (intro un) (simp_all add: n1)
  qed
  have b1: "echo_at e (after_polls e K1 s1) \<noteq> False"
    using rise by (simp add: ea n1)
  let ?s2 = "snd (gpio_get e ECHO_PIN (after_polls e K1 s1))"
  from poll_echo_edge[OF a1 b1] have p1: "poll_echo e False st s1 = Some (False, ?s2)" .
  have n2: "now ?s2 = 19 + 2 * K1"
    by (simp add: now_gpio_get ap lag1 n1)
  obtain st' s4 where sw: "second_wait e ?s2 = (st', s4)" by fastforce
  then have s4: "s4 = snd (second_wait e ?s2)" and st0': "st' = fst (second_wait e ?s2)"
    by simp_all
  have start: "fst (get_absolute_time e ?s2) = word_of_nat (19 + 2 * K1)"
    by (simp only: get_absolute_time_def fst_conv n2)
  have n3: "now (snd (get_absolute_time e ?s2)) = 20 + 2 * K1"
    by (simp add: get_absolute_time_def sdk_def lag1 n2)
  have st': "st' = word_of_nat (20 + 2 * K1)"
    unfolding st0' second_wait_def time_us_32_def by (simp only: fst_conv n3)
  have n4: "now s4 = 21 + 2 * K1"
    unfolding s4 second_wait_def by (simp add: time_us_32_def sdk_def lag1 n3)
  have a2: "\<forall>i<K2. echo_at e (after_polls e i s4) = True \<and>
      \<not> timeout < elapsed e st' (after_polls e i s4)"
  proof (intro allI impI conjI)
    fix i assume i: "i < K2"
    with high2 show "echo_at e (after_polls e i s4) = True"
      by (simp add: ea n4)
    from i t2 show "\<not> timeout < elapsed e st' (after_polls e i s4)"
      unfolding st' by (intro un) (simp_all add: n4)
  qed
  have b2: "echo_at e (after_polls e K2 s4) \<noteq> True"
    using fall by (simp add: ea n4)
  let ?s5 = "snd (gpio_get e ECHO_PIN (after_polls e K2 s4))"
  from poll_echo_edge[OF a2 b2] have p2: "poll_echo e True st' s4 = Some (False, ?s5)" .
  have "now ?s5 = (19 + 2 * K1) + (2 * K2 + 3)"
    by (simp add: now_gpio_get ap lag1 n4)
  then have stop: "fst (get_absolute_time e ?s5) = word_of_nat ((19 + 2 * K1) + (2 * K2 + 3))"
    by (simp only: get_absolute_time_def fst_conv)
  have "2 * K2 + 3 < (2::nat) ^ 63" using t2 by simp
  from diff_us[OF this, of "19 + 2 * K1"]
  have "absolute_time_diff_us (fst (get_absolute_time e ?s2))
      (fst (get_absolute_time e ?s5)) = int (2 * K2 + 3)"
    by (simp only: start stop)
  with echo_pulse_timed[OF fw p1 sw p2]
  have "echo_pulse e boot = Some (Inr (int (2 * K2 + 3)), snd (get_absolute_time e ?s5))"
    by simp
  moreover have "Get_absolute_time \<in> set (log (snd (get_absolute_time e ?s5)))"
    by (simp add: get_absolute_time_def log_sdk)
  ultimately show ?thesis unfolding e_def by blast
qed

subsection \<open>A line that keeps its level through the window\<close>

lemma unexpired_time:
  assumes steady: "steady_clock e" and lagL: "\<forall>n. lag e n \<le> L"
  shows "t0 \<le> now s \<Longrightarrow> now s \<le> t0 + 38000 + min L (2 ^ 30) \<Longrightarrow>
         since_start (word_of_nat t0) s = now s - t0 \<Longrightarrow>
         \<forall>i<K. \<not> timeout < elapsed e (word_of_nat t0) (after_polls e i s) \<Longrightarrow>
         t0 \<le> now (after_polls e K s) \<and> now (after_polls e K s) \<le> t0 + 38000 + min L (2 ^ 30)"
proof (induction K arbitrary: s)
  case 0
  then show ?case by simp
next
  case (Suc K)
  define M :: nat where "M = min L (2 ^ 30)"
  define a where "a = lag e (length (log s))"
  define b where "b = lag e (Suc (length (log s)))"
  from steady lagL have ab: "a \<le> M" "b \<le> M" "M \<le> 2 ^ 30"
    by (simp_all add: a_def b_def M_def steady_clock_def less_imp_le)
  let ?st = "word_of_nat t0 :: 32 word"
  from Suc.prems(2,3) have g: "since_start ?st s \<le> 38000 + M" by (simp add: M_def)
  with ab have "unat (word_of_nat (now s) - ?st) + a < 2 ^ 32" by (simp add: since_start_def)
  from unat_advance[OF this] have el: "unat (elapsed e ?st s) = since_start ?st s + a"
    by (simp add: elapsed_now since_start_def a_def)
  from Suc.prems(4) have "\<not> timeout < elapsed e ?st (after_polls e 0 s)" by blast
  then have "unat (elapsed e ?st s) \<le> 38000"
    by (simp add: word_less_nat_alt timeout_def not_less)
  with el have ga: "since_start ?st s + a \<le> 38000" by simp
  with ab have "unat (word_of_nat (now s) - ?st) + (a + b) < 2 ^ 32"
    by (simp add: since_start_def)
  from unat_advance[OF this] have g': "since_start ?st (poll_step e s) = since_start ?st s + a + b"
    by (simp add: since_start_def now_poll_step a_def b_def add.assoc)
  have n': "now (poll_step e s) = now s + a + b" by (simp add: now_poll_step a_def b_def)
  have 1: "t0 \<le> now (poll_step e s)" using Suc.prems(1) n' by simp
  have 2: "now (poll_step e s) \<le> t0 + 38000 + min L (2 ^ 30)"
    using ga ab Suc.prems(1,3) n' unfolding M_def by linarith
  have 3: "since_start ?st (poll_step e s) = now (poll_step e s) - t0"
    using g' n' Suc.prems(1,3) by simp
  have 4: "\<forall>i<K. \<not> timeout < elapsed e ?st (after_polls e i (poll_step e s))"
    using Suc.prems(4) by (metis Suc_less_eq after_polls.simps(2))
  from Suc.IH[OF 1 2 3 4] show ?case by simp
qed

lemma poll_echo_window:
  assumes steady: "steady_clock e" and lagL: "\<forall>n. lag e n \<le> L"
      and window: "\<forall>t. now s0 \<le> t \<and> t \<le> now s0 + 38000 + L \<longrightarrow> input e ECHO_PIN t = l"
  shows "\<exists>K. (\<forall>i\<le>K. echo_at e (after_polls e i (snd (time_us_32 e s0))) = l) \<and>
             timeout < elapsed e (fst (time_us_32 e s0)) (after_polls e K (snd (time_us_32 e s0)))"
proof -
  let ?st = "word_of_nat (now s0) :: 32 word"
  let ?s1 = "snd (time_us_32 e s0)"
  define d where "d = lag e (length (log s0))"
  have st: "fst (time_us_32 e s0) = ?st" by (simp add: time_us_32_def)
  have n1: "now ?s1 = now s0 + d" by (simp add: time_us_32_def sdk_def d_def)
  from steady lagL have d: "d < 2 ^ 30" "d \<le> min L (2 ^ 30)"
    by (simp_all add: d_def steady_clock_def less_imp_le)
  have "word_of_nat (now s0 + d) - ?st = word_of_nat d" by simp
  moreover have "unat (word_of_nat d :: 32 word) = d" using d by (simp add: unat_of_nat)
  ultimately have g1: "since_start ?st ?s1 = now ?s1 - now s0"
    by (simp add: since_start_def n1)
  have 1: "now s0 \<le> now ?s1" "now ?s1 \<le> now s0 + 38000 + min L (2 ^ 30)"
    using d by (simp_all add: n1)
  from time_us_32_since[OF steady, of s0]
  have "since_start (fst (time_us_32 e s0)) ?s1 \<le> 38000 + 2 ^ 30" .
  from poll_echo_returns[OF steady this] obtain b s2 where
    "poll_echo e l (fst (time_us_32 e s0)) ?s1 = Some (b, s2)" by fastforce
  from poll_echo_SomeD[OF this] obtain K where K: "poll_run e l ?st ?s1 K b s2"
    by (auto simp: st)
  then have un: "\<forall>i<K. \<not> timeout < elapsed e ?st (after_polls e i ?s1)"
    by (simp add: poll_run_def)
  have ea: "echo_at e (after_polls e i ?s1) = l" if "i \<le> K" for i
  proof -
    from un that have "\<forall>j<i. \<not> timeout < elapsed e ?st (after_polls e j ?s1)" by simp
    from unexpired_time[OF steady lagL 1 g1 this]
    have "now s0 \<le> now (after_polls e i ?s1)"
      "now (after_polls e i ?s1) \<le> now s0 + 38000 + L" by linarith+
    with window show ?thesis by (simp add: echo_at_now)
  qed
  with K have "b" by (cases b) (simp_all add: poll_run_def)
  with K have "timeout < elapsed e ?st (after_polls e K ?s1)" by (simp add: poll_run_def)
  with ea show ?thesis unfolding st by blast
qed

lemma no_stamp_first_loop:
  assumes fw: "first_wait e s = (st, s1)"
      and low: "\<forall>i\<le>K. \<not> echo_at e (after_polls e i s1)"
      and late: "timeout < elapsed e st (after_polls e K s1)"
  shows "\<exists>s'. get_reading_sensor e s = Some (Timeout_start, s') \<and>
            Get_absolute_time \<notin> set (since (length (log s)) s')"
proof -
  from low have "\<forall>i\<le>K. echo_at e (after_polls e i s1) = False" by simp
  from poll_echo_expire[OF this late] obtain J where
    p: "poll_echo e False st s1 = Some (True, after_polls e (Suc J) s1)" by blast
  let ?s' = "after_polls e (Suc J) s1"
  from echo_pulse_no_rise[OF fw p] have "get_reading_sensor e s = Some (Timeout_start, ?s')"
    by (rule get_reading_sensor_early)
  moreover have "Get_absolute_time \<notin> set (since (length (log s)) ?s')"
    unfolding since_def log_after_polls log_first_wait[OF fw]
    using stamp_polls[of "Suc J"] by simp
  ultimately show ?thesis by blast
qed

section \<open>The trigger line and the range of the result\<close>

text \<open>
  Claim C5. The pulse writes low, high, low to the trigger pin, in that order, before
  any polling starts; and whenever a call to \<open>get_reading_sensor\<close> returns, whatever
  the outcome (a distance, a timeout in either loop or an unrealistic reading), the call
  has written exactly low, high, low to the trigger pin, so the last level written is low.
\<close>

theorem trigger_sequence:
  "trig_writes (log (trigger_pulse e s)) = trig_writes (log s) @ [False, True, False] \<and>
   (get_reading_sensor e s = Some (r, s') \<longrightarrow>
      trig_writes (log s') = trig_writes (log s) @ [False, True, False] \<and>
      last (trig_writes (log s')) = False)"
proof -
  have a: "trig_writes (log (trigger_pulse e s)) = trig_writes (log s) @ [False, True, False]"
    by (simp add: log_trigger_pulse trig_writes_append TRIG_PIN_def)
  have b: "trig_writes (log s') = trig_writes (log s) @ [False, True, False] \<and>
      last (trig_writes (log s')) = False" if "get_reading_sensor e s = Some (r, s')"
  proof -
    from get_reading_sensor_state[OF that] obtain x where x: "echo_pulse e s = Some (x, s')" ..
    from echo_pulse_writes[OF x] show ?thesis by simp
  qed
  from a b show ?thesis by blast
qed

theorem trigger_sequence_witness:
  "\<exists>s'. get_reading_sensor (sim 150 730 20) boot = Some (Distance 10, s') \<and>
        trig_writes (log s') = [False, True, False] \<and> last (trig_writes (log s')) = False"
proof -
  have "map_option fst (get_reading_sensor (sim 150 730 20) boot) = Some (Distance 10)"
    by code_simp
  then obtain s' where run: "get_reading_sensor (sim 150 730 20) boot = Some (Distance 10, s')"
    by auto
  have "trig_writes (log boot) = []" by (simp add: boot_def)
  with run trigger_sequence[of "sim 150 730 20" boot "Distance 10" s'] show ?thesis by simp
qed

text \<open>
  Claim C10. Every value that \<open>get_reading_sensor\<close> returns is either \<open>-1\<close> or lies
  between 1 and 400 centimeters, bounds included.
\<close>

theorem reading_range:
  "get_reading_sensor e s = Some (r, s') \<Longrightarrow>
     returned r = - 1 \<or> (1 \<le> returned r \<and> returned r \<le> 400)"
  by (auto simp: get_reading_sensor_def checked_def
      split: prod.splits option.splits sum.splits if_splits dest: echo_pulse_early)

theorem reading_range_witness:
  "\<exists>r s'. get_reading_sensor (sim 150 730 20) boot = Some (r, s') \<and>
     (returned r = - 1 \<or> (1 \<le> returned r \<and> returned r \<le> 400))"
proof -
  have "get_reading_sensor (sim 150 730 20) boot \<noteq> None"
    by code_simp
  then obtain r s' where run: "get_reading_sensor (sim 150 730 20) boot = Some (r, s')"
    by auto
  with reading_range[OF run] show ?thesis by blast
qed

section \<open>The conversion of the echo pulse\<close>



text \<open>
  Claim C4. When the duration \<open>d\<close> of the echo has \<open>d / 58 < 1\<close> or \<open>d / 58 > 400\<close>,
  \<open>get_reading_sensor\<close> leaves through the return of line 72. The bounds themselves
  are accepted: 23200 microseconds give exactly 400 cm, which is returned, and 23260
  microseconds give about 401.03 cm, which is rejected.
\<close>

theorem unrealistic_pulse_rejected:
  "(echo_pulse e s = Some (Inr d, s') \<and>
      ((of_int d :: rat) / 58 < 1 \<or> 400 < (of_int d :: rat) / 58) \<longrightarrow>
        get_reading_sensor e s = Some (OutOfRange, s')) \<and>
   checked (distance_cm 23200) = Distance 400 \<and>
   checked (distance_cm 23260) = OutOfRange \<and>
   \<bar>distance_cm 23260 - 40103 / 100\<bar> < 1 / 100"
proof -
  have a: "get_reading_sensor e s = Some (OutOfRange, s')"
    if run: "echo_pulse e s = Some (Inr d, s')"
      and d: "(of_int d :: rat) / 58 < 1 \<or> 400 < (of_int d :: rat) / 58"
  proof -
    from d have "d \<le> 57 \<or> 23201 \<le> d" by auto
    then have "distance_cm d < 1 \<or> 400 < distance_cm d"
      using distance_cm_small distance_cm_large by blast
    then have "checked (distance_cm d) = OutOfRange" by (auto simp: checked_def)
    with run show ?thesis by (simp add: get_reading_sensor_def)
  qed
  have b: "checked (distance_cm 23200) = Distance 400"
    using distance_cm_exact[of 23200] by (simp add: checked_def)
  have "400 < distance_cm 23260" by (rule distance_cm_large) simp
  then have c: "checked (distance_cm 23260) = OutOfRange" by (simp add: checked_def)
  have "\<bar>distance_cm 23260 - of_int 23260 / 58\<bar> \<le> (of_int 23260 / 58) / 2 ^ 23"
    by (rule distance_cm_near) simp_all
  then have e: "\<bar>distance_cm 23260 - 40103 / 100\<bar> < 1 / 100"
    unfolding abs_le_iff abs_less_iff by simp
  from a b c e show ?thesis by blast
qed

theorem unrealistic_pulse_rejected_witness:
  "\<exists>s'. echo_pulse (sim 30 50 4) boot = Some (Inr 20, s') \<and>
        get_reading_sensor (sim 30 50 4) boot = Some (OutOfRange, s')"
proof -
  have "map_option fst (echo_pulse (sim 30 50 4) boot) = Some (Inr 20)"
    by code_simp
  then obtain s' where run: "echo_pulse (sim 30 50 4) boot = Some (Inr 20, s')"
    by auto
  with unrealistic_pulse_rejected[of "sim 30 50 4" boot 20 s'] show ?thesis by simp
qed

section \<open>The timeouts\<close>

text \<open>
  Claim C2. After the trigger pulse the start time is read (line 43) and the first loop
  polls the echo pin. If every read of the pin shows low up to a pass whose timeout test
  finds more than 38000 microseconds elapsed since that start time, then
  \<open>get_reading_sensor\<close> leaves through the return of line 46, with \<open>-1.0\<close>, and the call
  has not read the absolute time: no start timestamp was taken. Under a steady clock
  whose SDK calls take at most \<open>L\<close> microseconds each, this is the case whenever the echo
  line stays low from the end of the trigger pulse for \<open>38000 + L\<close> microseconds.
\<close>

theorem no_echo_start:
  "(first_wait e s = (start_time, s1) \<and>
    (\<forall>i\<le>K. \<not> echo_at e (after_polls e i s1)) \<and>
    timeout < elapsed e start_time (after_polls e K s1) \<longrightarrow>
      (\<exists>s'. get_reading_sensor e s = Some (Timeout_start, s') \<and>
            returned Timeout_start = - 1 \<and>
            Get_absolute_time \<notin> set (since (length (log s)) s'))) \<and>
   (steady_clock e \<and> (\<forall>n. lag e n \<le> L) \<and>
    (\<forall>t. now (trigger_pulse e s) \<le> t \<and> t \<le> now (trigger_pulse e s) + 38000 + L \<longrightarrow>
         \<not> input e ECHO_PIN t) \<longrightarrow>
      (\<exists>s'. get_reading_sensor e s = Some (Timeout_start, s') \<and>
            returned Timeout_start = - 1 \<and>
            Get_absolute_time \<notin> set (since (length (log s)) s')))"
proof -
  have b: "\<exists>s'. get_reading_sensor e s = Some (Timeout_start, s') \<and>
            Get_absolute_time \<notin> set (since (length (log s)) s')"
    if steady: "steady_clock e" and lagL: "\<forall>n. lag e n \<le> L"
      and window: "\<forall>t. now (trigger_pulse e s) \<le> t \<and> t \<le> now (trigger_pulse e s) + 38000 + L \<longrightarrow>
         \<not> input e ECHO_PIN t"
  proof -
    from window have "\<forall>t. now (trigger_pulse e s) \<le> t \<and> t \<le> now (trigger_pulse e s) + 38000 + L \<longrightarrow>
         input e ECHO_PIN t = False" by simp
    from poll_echo_window[OF steady lagL this] obtain K where
      "\<forall>i\<le>K. \<not> echo_at e (after_polls e i (snd (first_wait e s)))"
      "timeout < elapsed e (fst (first_wait e s)) (after_polls e K (snd (first_wait e s)))"
      by (auto simp: first_wait_def)
    with no_stamp_first_loop[of e s "fst (first_wait e s)" "snd (first_wait e s)" K]
    show ?thesis by simp
  qed
  from no_stamp_first_loop[of e s start_time s1 K] b show ?thesis by auto
qed

theorem no_echo_start_witness:
  "steady_clock (sim 0 0 10000) \<and> (\<forall>n. lag (sim 0 0 10000) n \<le> 10000) \<and>
   (\<forall>t. \<not> input (sim 0 0 10000) ECHO_PIN t) \<and>
   timeout < elapsed (sim 0 0 10000) (fst (first_wait (sim 0 0 10000) boot))
               (after_polls (sim 0 0 10000) (Suc 0) (snd (first_wait (sim 0 0 10000) boot))) \<and>
   (\<exists>s'. get_reading_sensor (sim 0 0 10000) boot = Some (Timeout_start, s') \<and>
        Get_absolute_time \<notin> set (since (length (log boot)) s'))"
proof -
  let ?e = "sim 0 0 10000"
  have steady: "steady_clock ?e" by (auto simp: steady_clock_def sim_def)
  have lagL: "\<forall>n. lag ?e n \<le> 10000" by (simp add: lag_sim)
  have never: "\<forall>t. \<not> input ?e ECHO_PIN t" by (simp add: sim_def)
  obtain st s1 where fw: "first_wait ?e boot = (st, s1)" by fastforce
  then have st: "st = fst (first_wait ?e boot)" and s1: "s1 = snd (first_wait ?e boot)"
    by simp_all
  have a: "\<forall>i\<le>Suc 0. \<not> echo_at ?e (after_polls ?e i s1)"
    by (simp add: echo_at_def gpio_get_def sim_def)
  have b: "timeout < elapsed ?e st (after_polls ?e (Suc 0) s1)"
    unfolding st s1 by (simp add: board_simps)
  from no_echo_start[of ?e boot st s1 "Suc 0" 10000] fw a b steady lagL never show ?thesis
    unfolding st s1 by blast
qed

text \<open>
  A line that is low for the 38000 microseconds alone is not enough. In \<open>sim 38018 38598 1\<close>
  the start time is 17 and the line is low until it rises at 38018. The pin is read
  before the timer, and the test is strict: with a call taking one microsecond, the timer
  test at 38000 microseconds passes, and a rise at 38001 microseconds is seen by the next
  read of the pin. The call then times the pulse (581 microseconds here) and returns a
  distance, with a start timestamp taken.
\<close>

theorem late_rise_is_measured:
  "fst (first_wait (sim 38018 38598 1) boot) = 17 \<and>
   \<not> input (sim 38018 38598 1) ECHO_PIN (17 + 38000) \<and>
   input (sim 38018 38598 1) ECHO_PIN (17 + 38001) \<and>
   map_option fst (get_reading_sensor (sim 38018 38598 1) boot) = Some (Distance (distance_cm 581)) \<and>
   map_option fst (get_reading_sensor (sim 38018 38598 1) boot) \<noteq> Some Timeout_start \<and>
   Get_absolute_time \<in> set (log (snd (the (get_reading_sensor (sim 38018 38598 1) boot))))"
proof -
  let ?e = "sim 38018 38598 1"
  have a: "fst (first_wait ?e boot) = 17" by (simp add: board_simps)
  have b: "\<not> input ?e ECHO_PIN (17 + 38000)" "input ?e ECHO_PIN (17 + 38001)"
    by (simp_all add: input_sim)
  have "\<exists>s'. echo_pulse ?e boot = Some (Inr (int (2 * 289 + 3)), s') \<and>
      Get_absolute_time \<in> set (log s')"
    by (rule sim1_run[where ?K1.0 = 19000]) auto
  then obtain s' where s': "echo_pulse ?e boot = Some (Inr 581, s')"
    "Get_absolute_time \<in> set (log s')" by auto
  have "checked (distance_cm 581) = Distance (distance_cm 581)"
    using distance_cm_in_range[of 581] by (simp add: checked_def)
  with s'(1) have "get_reading_sensor ?e boot = Some (Distance (distance_cm 581), s')"
    by (simp add: get_reading_sensor_def)
  with a b s'(2) show ?thesis by simp
qed

text \<open>
  Claim C3. If the first loop ended because the echo line went high, and then every read
  of the pin in the second loop shows high up to a pass whose timeout test finds more
  than 38000 microseconds elapsed since the start time of the second loop (read on line
  54, after the rise, not at the trigger), then \<open>get_reading_sensor\<close> leaves through
  the return of line 57, with \<open>-1.0\<close>. Under a steady clock whose SDK calls take at most
  \<open>L\<close> microseconds each, this is the case whenever the echo line stays high for
  \<open>38000 + L\<close> microseconds from the time at which the start timestamp has been taken.
\<close>

theorem echo_never_ends:
  "(first_wait e s = (start_time, s1) \<and>
    poll_run e False start_time s1 K1 False s2 \<and>
    second_wait e s2 = (start_time', s4) \<and>
    (\<forall>i\<le>K. echo_at e (after_polls e i s4)) \<and>
    timeout < elapsed e start_time' (after_polls e K s4) \<longrightarrow>
      (\<exists>s'. get_reading_sensor e s = Some (Timeout_end, s') \<and> returned Timeout_end = - 1)) \<and>
   (first_wait e s = (start_time, s1) \<and>
    poll_run e False start_time s1 K1 False s2 \<and>
    steady_clock e \<and> (\<forall>n. lag e n \<le> L) \<and>
    (\<forall>t. now (snd (get_absolute_time e s2)) \<le> t \<and>
         t \<le> now (snd (get_absolute_time e s2)) + 38000 + L \<longrightarrow> input e ECHO_PIN t) \<longrightarrow>
      (\<exists>s'. get_reading_sensor e s = Some (Timeout_end, s') \<and> returned Timeout_end = - 1))"
proof -
  have a: "\<exists>s'. get_reading_sensor e s = Some (Timeout_end, s')"
    if fw: "first_wait e s = (st, s1)"
      and r1: "poll_run e False st s1 K1 False s2"
      and sw: "second_wait e s2 = (st', s4)"
      and high: "\<forall>i\<le>K. echo_at e (after_polls e i s4)"
      and late: "timeout < elapsed e st' (after_polls e K s4)" for st s1 s2 st' s4 K
  proof -
    from r1 have p1: "poll_echo e False st s1 = Some (False, s2)"
      by (rule poll_run_imp_poll_echo)
    from high have "\<forall>i\<le>K. echo_at e (after_polls e i s4) = True" by simp
    from poll_echo_expire[OF this late] obtain J where
      p: "poll_echo e True st' s4 = Some (True, after_polls e (Suc J) s4)" by blast
    from echo_pulse_no_fall[OF fw p1 sw p]
    have "get_reading_sensor e s = Some (Timeout_end, after_polls e (Suc J) s4)"
      by (rule get_reading_sensor_early)
    then show ?thesis by blast
  qed
  have b: "\<exists>s'. get_reading_sensor e s = Some (Timeout_end, s')"
    if fw: "first_wait e s = (start_time, s1)"
      and r1: "poll_run e False start_time s1 K1 False s2"
      and steady: "steady_clock e" and lagL: "\<forall>n. lag e n \<le> L"
      and window: "\<forall>t. now (snd (get_absolute_time e s2)) \<le> t \<and>
         t \<le> now (snd (get_absolute_time e s2)) + 38000 + L \<longrightarrow> input e ECHO_PIN t"
  proof -
    from window have "\<forall>t. now (snd (get_absolute_time e s2)) \<le> t \<and>
         t \<le> now (snd (get_absolute_time e s2)) + 38000 + L \<longrightarrow> input e ECHO_PIN t = True"
      by simp
    from poll_echo_window[OF steady lagL this] obtain K where
      "\<forall>i\<le>K. echo_at e (after_polls e i (snd (second_wait e s2)))"
      "timeout < elapsed e (fst (second_wait e s2)) (after_polls e K (snd (second_wait e s2)))"
      by (auto simp: second_wait_def)
    with a[OF fw r1, of "fst (second_wait e s2)" "snd (second_wait e s2)" K]
    show ?thesis by simp
  qed
  from a b show ?thesis by auto
qed

theorem echo_never_ends_witness:
  "steady_clock \<lparr>input = (\<lambda>p t. True), lag = (\<lambda>n. 10000)\<rparr> \<and>
   (\<forall>n. lag \<lparr>input = (\<lambda>p t. True), lag = (\<lambda>n. 10000)\<rparr> n \<le> 10000) \<and>
   (\<forall>t. input \<lparr>input = (\<lambda>p t. True), lag = (\<lambda>n. 10000)\<rparr> ECHO_PIN t) \<and>
   (\<exists>st' s4. timeout < elapsed \<lparr>input = (\<lambda>p t. True), lag = (\<lambda>n. 10000)\<rparr> st'
                (after_polls \<lparr>input = (\<lambda>p t. True), lag = (\<lambda>n. 10000)\<rparr> (Suc 0) s4)) \<and>
   (\<exists>s'. get_reading_sensor \<lparr>input = (\<lambda>p t. True), lag = (\<lambda>n. 10000)\<rparr> boot
          = Some (Timeout_end, s'))"
proof -
  let ?e = "\<lparr>input = (\<lambda>p t. True), lag = (\<lambda>n. 10000)\<rparr>"
  have steady: "steady_clock ?e" by (auto simp: steady_clock_def)
  have lagL: "\<forall>n. lag ?e n \<le> 10000" by simp
  have stuck: "\<forall>t. input ?e ECHO_PIN t" by simp
  obtain st s1 where fw: "first_wait ?e boot = (st, s1)" by fastforce
  then have s1: "s1 = snd (first_wait ?e boot)" by simp
  let ?s2 = "snd (gpio_get ?e ECHO_PIN s1)"
  have r1: "poll_run ?e False st s1 0 False ?s2"
    by (simp add: poll_run_def echo_at_def gpio_get_def)
  obtain st' s4 where sw: "second_wait ?e ?s2 = (st', s4)" by fastforce
  then have s4: "s4 = snd (second_wait ?e ?s2)" and st': "st' = fst (second_wait ?e ?s2)"
    by simp_all
  have a: "\<forall>i\<le>Suc 0. echo_at ?e (after_polls ?e i s4)"
    by (simp add: echo_at_def gpio_get_def)
  have b: "timeout < elapsed ?e st' (after_polls ?e (Suc 0) s4)"
    unfolding st' s4 s1 by (simp add: board_simps)
  from echo_never_ends[of ?e boot st s1 0 ?s2 st' s4 "Suc 0" 10000]
    fw r1 sw a b steady lagL stuck b
  show ?thesis by blast
qed

text \<open>
  Here too the 38000 microseconds alone are not enough. In \<open>sim 0 38021 1\<close> the start time
  of the second loop is 20 and the line is high until it falls at 38021: a line that is
  high throughout the window and falls one microsecond later is seen low by the read of
  the pin that follows the timer test at 38000 microseconds. The call then reads the end
  timestamp, finds a pulse of 38003 microseconds and leaves through the range test of
  line 72, not through the timeout return of line 57.
\<close>

theorem late_fall_is_measured:
  "fst (second_wait (sim 0 38021 1)
         (snd (gpio_get (sim 0 38021 1) ECHO_PIN (snd (first_wait (sim 0 38021 1) boot))))) = 20 \<and>
   input (sim 0 38021 1) ECHO_PIN 20 \<and>
   input (sim 0 38021 1) ECHO_PIN (20 + 38000) \<and>
   \<not> input (sim 0 38021 1) ECHO_PIN (20 + 38001) \<and>
   map_option fst (echo_pulse (sim 0 38021 1) boot) = Some (Inr 38003) \<and>
   map_option fst (get_reading_sensor (sim 0 38021 1) boot) = Some OutOfRange \<and>
   map_option fst (get_reading_sensor (sim 0 38021 1) boot) \<noteq> Some Timeout_end"
proof -
  let ?e = "sim 0 38021 1"
  have a: "fst (second_wait ?e (snd (gpio_get ?e ECHO_PIN (snd (first_wait ?e boot))))) = 20"
    by (simp add: board_simps)
  have b: "input ?e ECHO_PIN 20" "input ?e ECHO_PIN (20 + 38000)"
    "\<not> input ?e ECHO_PIN (20 + 38001)"
    by (simp_all add: input_sim)
  have "\<exists>s'. echo_pulse ?e boot = Some (Inr (int (2 * 19000 + 3)), s') \<and>
      Get_absolute_time \<in> set (log s')"
    by (rule sim1_run[where ?K1.0 = 0]) auto
  then obtain s' where s': "echo_pulse ?e boot = Some (Inr 38003, s')" by auto
  have "400 < distance_cm 38003" by (rule distance_cm_large) simp
  then have "checked (distance_cm 38003) = OutOfRange" by (simp add: checked_def)
  with s' have "get_reading_sensor ?e boot = Some (OutOfRange, s')"
    by (simp add: get_reading_sensor_def)
  with a b s' show ?thesis by simp
qed

text \<open>
  Claim C9. The timeout test of both loops is strict. In a loop that waits while the
  pin reads \<open>l\<close> (low in the first loop, high in the second), passes whose test finds at
  most 38000 microseconds elapsed, 38000 exactly included, do not take the timeout
  return; when the next read of the pin shows the awaited edge, the loop ends normally.
  In the first loop the call then does not return through line 46; in the second loop it
  goes on to compute the distance and returns through line 72 or line 75.
\<close>

theorem timeout_test_is_strict:
  assumes "\<forall>i<K. echo_at e (after_polls e i s) = l \<and>
                 elapsed e start_time (after_polls e i s) \<le> timeout"
      and "echo_at e (after_polls e K s) \<noteq> l"
  shows "poll_echo e l start_time s = Some (False, snd (gpio_get e ECHO_PIN (after_polls e K s))) \<and>
         (\<not> l \<and> first_wait e s0 = (start_time, s) \<longrightarrow>
            (\<forall>s'. get_reading_sensor e s0 \<noteq> Some (Timeout_start, s'))) \<and>
         (l \<and> first_wait e s0 = (t1, s1) \<and> poll_echo e False t1 s1 = Some (False, s2) \<and>
            second_wait e s2 = (start_time, s) \<longrightarrow>
            (\<exists>r s'. get_reading_sensor e s0 = Some (r, s') \<and>
                    r \<noteq> Timeout_start \<and> r \<noteq> Timeout_end))"
proof -
  let ?s' = "snd (gpio_get e ECHO_PIN (after_polls e K s))"
  from assms(1) have "\<forall>i<K. echo_at e (after_polls e i s) = l \<and>
      \<not> timeout < elapsed e start_time (after_polls e i s)"
    by (simp add: not_less)
  from poll_echo_edge[OF this assms(2)]
  have p: "poll_echo e l start_time s = Some (False, ?s')" .
  have a: "get_reading_sensor e s0 \<noteq> Some (Timeout_start, s')"
    if "\<not> l" "first_wait e s0 = (start_time, s)" for s'
    using that p checked_not_timeout(1)
    by (auto simp: get_reading_sensor_def echo_pulse_unfold
        split: option.splits prod.splits bool.splits sum.splits)
  have b: "\<exists>r s'. get_reading_sensor e s0 = Some (r, s') \<and> r \<noteq> Timeout_start \<and> r \<noteq> Timeout_end"
    if "l" "first_wait e s0 = (t1, s1)" "poll_echo e False t1 s1 = Some (False, s2)"
      "second_wait e s2 = (start_time, s)"
  proof -
    from p that(1) have "poll_echo e True start_time s = Some (False, ?s')" by simp
    from echo_pulse_timed[OF that(2,3,4) this] show ?thesis
      by (simp add: get_reading_sensor_def checked_not_timeout)
  qed
  from p a b show ?thesis by blast
qed

theorem timeout_test_is_strict_witness:
  "elapsed (sim 120000 240000 19000) (fst (first_wait (sim 120000 240000 19000) boot))
     (snd (first_wait (sim 120000 240000 19000) boot)) = 38000 \<and>
   (\<forall>s'. get_reading_sensor (sim 120000 240000 19000) boot \<noteq> Some (Timeout_start, s')) \<and>
   (\<exists>r s'. get_reading_sensor (sim 120000 240000 19000) boot = Some (r, s') \<and>
      r \<noteq> Timeout_start \<and> r \<noteq> Timeout_end)"
proof -
  let ?e = "sim 120000 240000 19000"
  obtain st s1 where fw: "first_wait ?e boot = (st, s1)" by fastforce
  then have s1: "s1 = snd (first_wait ?e boot)" and st: "st = fst (first_wait ?e boot)"
    by simp_all
  have el: "elapsed ?e st s1 = 38000"
    unfolding st s1 by (simp add: board_simps)
  have a: "\<forall>i<Suc 0. echo_at ?e (after_polls ?e i s1) = False \<and>
              elapsed ?e st (after_polls ?e i s1) \<le> timeout"
    using el unfolding s1 by (simp add: board_simps)
  have b: "echo_at ?e (after_polls ?e (Suc 0) s1) \<noteq> False"
    unfolding s1 by (simp add: board_simps)
  let ?s2 = "snd (gpio_get ?e ECHO_PIN (after_polls ?e (Suc 0) s1))"
  from timeout_test_is_strict[OF a b, of boot] fw
  have p1: "poll_echo ?e False st s1 = Some (False, ?s2)"
    and c1: "\<forall>s'. get_reading_sensor ?e boot \<noteq> Some (Timeout_start, s')"
    by simp_all
  obtain st' s4 where sw: "second_wait ?e ?s2 = (st', s4)" by fastforce
  then have s4: "s4 = snd (second_wait ?e ?s2)" and st': "st' = fst (second_wait ?e ?s2)"
    by simp_all
  have a': "\<forall>i<Suc 0. echo_at ?e (after_polls ?e i s4) = True \<and>
              elapsed ?e st' (after_polls ?e i s4) \<le> timeout"
    unfolding s4 st' s1 by (simp add: board_simps)
  have b': "echo_at ?e (after_polls ?e (Suc 0) s4) \<noteq> True"
    unfolding s4 s1 by (simp add: board_simps)
  from timeout_test_is_strict[OF a' b', of boot st s1 ?s2] fw p1 sw
  have c2: "\<exists>r s'. get_reading_sensor ?e boot = Some (r, s') \<and>
      r \<noteq> Timeout_start \<and> r \<noteq> Timeout_end"
    by simp
  from el c1 c2 show ?thesis unfolding st s1 by simp
qed

section \<open>The main loop\<close>

text \<open>
  Claim C6. A cycle of the main loop whose measurement returns prints exactly one line,
  \<open>Distance: <value> cm\<close>, where the value is the returned float with two decimals.
  When the measurement failed, through either timeout return or through the range test,
  the line is \<open>Distance: -1.00 cm\<close>: the output does not tell the failures apart.
\<close>

theorem cycle_prints_distance:
  assumes "get_reading_sensor e s = Some (r, s1)"
  shows "\<exists>s'. main_cycle e s = Some s' \<and>
           printed (log s') = printed (log s) @ [''Distance: '' @ fmt_2f (returned r) @ '' cm\<newline>''] \<and>
           (r = Timeout_start \<or> r = Timeout_end \<or> r = OutOfRange \<longrightarrow>
              printed (log s') = printed (log s) @ [''Distance: -1.00 cm\<newline>''])"
proof -
  let ?s' = "sleep_ms e 1000 (printf e (distance_line (returned r)) s1)"
  have c: "main_cycle e s = Some ?s'" using assms by (rule main_cycle_Some)
  have p: "printed (log ?s') = printed (log s) @ [distance_line (returned r)]"
    by (simp add: log_cycle_end printed_append get_reading_sensor_prints[OF assms])
  have "distance_line (returned r) = ''Distance: -1.00 cm\<newline>''"
    if "r = Timeout_start \<or> r = Timeout_end \<or> r = OutOfRange"
    using that failure_line by auto
  with c p show ?thesis by (auto simp: distance_line_def)
qed

theorem cycle_prints_distance_witness:
  "\<exists>s'. main_cycle (sim 30 50 4) boot = Some s' \<and>
        printed (log s') = [''Distance: -1.00 cm\<newline>'']"
proof -
  have "map_option fst (get_reading_sensor (sim 30 50 4) boot) = Some OutOfRange"
    by code_simp
  then obtain s1 where run: "get_reading_sensor (sim 30 50 4) boot = Some (OutOfRange, s1)"
    by auto
  from cycle_prints_distance[OF run] show ?thesis by (auto simp: boot_def)
qed

text \<open>
  Claim C7. \<open>main\<close> never returns. The banner is printed once, before the loop. After
  any number of cycles the console shows the banner followed by one distance line per
  cycle, and whenever the next measurement returns, whatever its outcome, the cycle goes
  on to print its line and to sleep for 1000 milliseconds, and the loop continues. Under
  a steady clock every measurement returns, so the loop completes any number of cycles.
\<close>

theorem main_loop_forever:
  "main e s = None \<and>
   printed (log (main_init e s)) = printed (log s) @ [banner] \<and>
   (cycles e n (main_init e s) = Some sn \<longrightarrow>
      (\<exists>vs. length vs = n \<and>
            printed (log sn) = printed (log s) @ banner # map distance_line vs) \<and>
      (\<forall>r s1. get_reading_sensor e sn = Some (r, s1) \<longrightarrow>
         (\<exists>s'. cycles e (Suc n) (main_init e s) = Some s' \<and>
               log s' = log s1 @ [Printf (distance_line (returned r)), Sleep_ms 1000] \<and>
               now s1 + 1000000 \<le> now s'))) \<and>
   (steady_clock e \<longrightarrow> (\<exists>sn. cycles e n (main_init e s) = Some sn))"
proof -
  have a: "main e s = None" by (simp add: main_def main_loop_never)
  have b: "\<exists>vs. length vs = n \<and>
            printed (log sn) = printed (log s) @ banner # map distance_line vs"
    if "cycles e n (main_init e s) = Some sn"
    using cycles_printed[OF that] by (simp add: printed_main_init)
  have c: "\<exists>s'. cycles e (Suc n) (main_init e s) = Some s' \<and>
               log s' = log s1 @ [Printf (distance_line (returned r)), Sleep_ms 1000] \<and>
               now s1 + 1000000 \<le> now s'"
    if "cycles e n (main_init e s) = Some sn" "get_reading_sensor e sn = Some (r, s1)" for r s1
    using that by (simp add: main_cycle_Some log_cycle_end now_cycle_end)
  have d: "\<exists>sn. cycles e n (main_init e s) = Some sn" if "steady_clock e"
    using that by (rule cycles_exist)
  from a b c d printed_main_init show ?thesis by blast
qed

theorem main_loop_forever_witness:
  "(\<exists>r s1 s'. get_reading_sensor (sim 200000 200300 20) (main_init (sim 200000 200300 20) boot)
                = Some (r, s1) \<and>
     cycles (sim 200000 200300 20) (Suc 0) (main_init (sim 200000 200300 20) boot) = Some s' \<and>
     log s' = log s1 @ [Printf (distance_line (returned r)), Sleep_ms 1000]) \<and>
   steady_clock (sim 200000 200300 20)"
proof -
  let ?e = "sim 200000 200300 20"
  let ?s0 = "main_init ?e boot"
  obtain st s1 where fw: "first_wait ?e ?s0 = (st, s1)" by fastforce
  then have s1: "s1 = snd (first_wait ?e ?s0)" by simp
  have "echo_at ?e (after_polls ?e 0 s1) \<noteq> False"
    unfolding s1 by (simp add: board_simps main_simps)
  then have p1: "poll_echo ?e False st s1 =
      Some (False, snd (gpio_get ?e ECHO_PIN (after_polls ?e 0 s1)))"
    by (intro poll_echo_edge) simp_all
  let ?s2 = "snd (gpio_get ?e ECHO_PIN (after_polls ?e 0 s1))"
  obtain st' s4 where sw: "second_wait ?e ?s2 = (st', s4)" by fastforce
  then have s4: "s4 = snd (second_wait ?e ?s2)" by simp
  have "echo_at ?e (after_polls ?e 0 s4) \<noteq> True"
    unfolding s4 s1 by (simp add: board_simps main_simps)
  then have p2: "poll_echo ?e True st' s4 =
      Some (False, snd (gpio_get ?e ECHO_PIN (after_polls ?e 0 s4)))"
    by (intro poll_echo_edge) simp_all
  from echo_pulse_timed[OF fw p1 sw p2] obtain r sf where
    run: "get_reading_sensor ?e ?s0 = Some (r, sf)"
    by (simp add: get_reading_sensor_def)
  have c0: "cycles ?e 0 ?s0 = Some ?s0" by simp
  have "steady_clock ?e" by (auto simp: steady_clock_def sim_def)
  with main_loop_forever[of ?e boot 0 ?s0] c0 run show ?thesis by blast
qed

section \<open>Determinism\<close>

text \<open>
  Claim C8. The result of a measurement depends only on the trace of the echo line and
  on the behaviour of the clock: two calls made in environments with the same echo trace
  and the same lags, on boards whose timers agree and that have made the same number of
  SDK calls, return the same result (or both do not return), whatever else differs, such
  as the other input pins and the calls made before.
\<close>

theorem same_input_same_reading:
  assumes "input e1 ECHO_PIN = input e2 ECHO_PIN" and "lag e1 = lag e2"
      and "now s1 = now s2" and "length (log s1) = length (log s2)"
  shows "map_option fst (get_reading_sensor e1 s1) = map_option fst (get_reading_sensor e2 s2)"
proof -
  from assms(3,4) have c: "same_clock s1 s2" "same_clock s2 s1" by (simp_all add: same_clock_def)
  have "map_option fst (echo_pulse e1 s1) = map_option fst (echo_pulse e2 s2)"
  proof (cases "echo_pulse e1 s1")
    case None
    show ?thesis
    proof (cases "echo_pulse e2 s2")
      case (Some r)
      then have "echo_pulse e2 s2 = Some (fst r, snd r)" by simp
      from echo_pulse_same[OF assms(1)[symmetric] assms(2)[symmetric] c(2) this] None
      show ?thesis by simp
    qed (simp add: None)
  next
    case (Some r)
    then have "echo_pulse e1 s1 = Some (fst r, snd r)" by simp
    from echo_pulse_same[OF assms(1,2) c(1) this] Some show ?thesis by auto
  qed
  then show ?thesis by (simp only: get_reading_sensor_map)
qed

theorem same_input_same_reading_witness:
  "map_option fst (get_reading_sensor (sim 150 730 20) \<lparr>now = 5, log = [Stdio_init_all]\<rparr>) =
   map_option fst (get_reading_sensor \<lparr>input = (\<lambda>p t. 150 \<le> t \<and> t < 730), lag = (\<lambda>n. 20)\<rparr>
                     \<lparr>now = 5, log = [Printf ''x'']\<rparr>) \<and>
   map_option fst (get_reading_sensor (sim 150 730 20) \<lparr>now = 5, log = [Stdio_init_all]\<rparr>) =
     Some (Distance 10)"
proof -
  have "map_option fst (get_reading_sensor (sim 150 730 20) \<lparr>now = 5, log = [Stdio_init_all]\<rparr>) =
     Some (Distance 10)" by code_simp
  moreover have "input (sim 150 730 20) ECHO_PIN =
      input \<lparr>input = (\<lambda>p t. 150 \<le> t \<and> t < 730), lag = (\<lambda>n. 20)\<rparr> ECHO_PIN"
    "lag (sim 150 730 20) = lag \<lparr>input = (\<lambda>p t. 150 \<le> t \<and> t < 730), lag = (\<lambda>n. 20)\<rparr>"
    by (simp_all add: sim_def)
  ultimately show ?thesis
    using same_input_same_reading[of "sim 150 730 20"
        "\<lparr>input = (\<lambda>p t. 150 \<le> t \<and> t < 730), lag = (\<lambda>n. 20)\<rparr>"
        "\<lparr>now = 5, log = [Stdio_init_all]\<rparr>" "\<lparr>now = 5, log = [Printf ''x'']\<rparr>"]
    by simp
qed

end
